theory Spec2Isabelle
  imports Main "HOL-Library.Word" "HOL-Library.Signed_Division"
begin

section \<open>Data model of mpegflow.cpp\<close>

type_synonym int16_t = "16 word"
type_synonym int64_t = "64 word"
type_synonym size_t = "64 word"

text \<open>
  Modelled from the spec: the struct \<^verbatim>\<open>AVMotionVector\<close> is declared in the decoder
  library's header \<^verbatim>\<open>libavutil/motion_vector.h\<close>, which is not part of the repository.
  The spec (section 4.4) says its elements have four 16-bit-range integer coordinates
  (sx, sy, dx, dy); the source reads them as the fields \<^verbatim>\<open>src_x\<close>, \<^verbatim>\<open>src_y\<close>,
  \<^verbatim>\<open>dst_x\<close>, \<^verbatim>\<open>dst_y\<close>. They are signed 16-bit values, read with \<open>sint\<close>.
\<close>

record AVMotionVector =
  src_x :: int16_t
  src_y :: int16_t
  dst_x :: int16_t
  dst_y :: int16_t

text \<open>
  \<^verbatim>\<open>struct FrameInfo\<close>. The three arrays are \<^verbatim>\<open>[MAX_GRID_SIZE][MAX_GRID_SIZE]\<close>; they are
  modelled as total functions on index pairs, and every write is guarded by the array
  bound (an access outside the array is undefined behaviour in C++, \<open>None\<close> here).
  \<^verbatim>\<open>GridStep\<close> and \<^verbatim>\<open>Shape\<close> are \<^verbatim>\<open>size_t\<close>; they only ever hold 8 or 16 and values up
  to 512, so they are natural numbers, converted to 64-bit words where the source computes
  with them in \<^verbatim>\<open>size_t\<close>. The cells \<^verbatim>\<open>dx\<close>, \<^verbatim>\<open>dy\<close> are C \<^verbatim>\<open>int\<close>: they hold differences
  of two 16-bit values and means of two such cells, which never leave the 32-bit range
  (lemmas \<open>make_cur_bounded\<close>, \<open>InterpolateFlow_bounded\<close> and \<open>run_std_bounded\<close> below), so they are modelled as \<open>int\<close>. The occupancy cells are
  \<^verbatim>\<open>uint8_t\<close> and hold 0, 1 or 2.
\<close>

definition MAX_GRID_SIZE :: nat where
  "MAX_GRID_SIZE = 512"

record FrameInfo =
  GridStep :: nat
  Shape :: "nat \<times> nat"
  dx :: "nat \<times> nat \<Rightarrow> int"
  dy :: "nat \<times> nat \<Rightarrow> int"
  occupancy :: "nat \<times> nat \<Rightarrow> nat"
  Pts :: int64_t
  FrameIndex :: int
  PictType :: char
  Origin :: string
  Empty :: bool
  Printed :: bool

text \<open>
  The constructor \<^verbatim>\<open>FrameInfo()\<close>. It leaves \<^verbatim>\<open>GridStep\<close> and \<^verbatim>\<open>Shape\<close> unset; the only
  caller assigns both before anything reads them, so the 0 here is never observed.
\<close>

definition FrameInfo_new :: FrameInfo where
  "FrameInfo_new =
     \<lparr>GridStep = 0, Shape = (0, 0),
      dx = (\<lambda>_. 0), dy = (\<lambda>_. 0), occupancy = (\<lambda>_. 0),
      Pts = - 1, FrameIndex = - 1, PictType = CHR ''?'', Origin = '''',
      Empty = True, Printed = False\<rparr>"

text \<open>
  The global flags and the frame size found by \<^verbatim>\<open>ffmpeg_init\<close>. The two sizes are
  \<^verbatim>\<open>size_t\<close> in the source, taken from the decoder's width and height.
\<close>

record config =
  ARG_OUTPUT_RAW_MOTION_VECTORS :: bool
  ARG_FORCE_GRID_8 :: bool
  ARG_OUTPUT_OCCUPANCY :: bool
  ARG_QUIET :: bool
  ffmpeg_frameWidth :: nat
  ffmpeg_frameHeight :: nat

section \<open>Grid binning\<close>

text \<open>
  \<^verbatim>\<open>std::max(size_t(0), std::min(mv.dst_y / cur.GridStep, cur.Shape.first - 1))\<close>.
  The coordinate is an \<^verbatim>\<open>int16_t\<close>; dividing it by a \<^verbatim>\<open>size_t\<close> converts it to
  \<^verbatim>\<open>size_t\<close> first (sign extension to 64 bits, \<open>scast\<close>), and the whole
  expression is computed in unsigned 64-bit arithmetic, where \<^verbatim>\<open>n - 1\<close> wraps for \<open>n = 0\<close>.
\<close>

definition clipped :: "int16_t \<Rightarrow> nat \<Rightarrow> nat \<Rightarrow> nat" where
  "clipped d gridStep n =
     unat (max (0 :: size_t)
            (min ((scast d :: size_t) div (word_of_nat gridStep)) (word_of_nat n - 1)))"

text \<open>The body of the binning loop of \<^verbatim>\<open>output_vectors_std\<close>, for one vector.\<close>

definition bin_vector :: "FrameInfo \<Rightarrow> AVMotionVector \<Rightarrow> FrameInfo option" where
  "bin_vector cur mv =
     (let mvdx = sint (dst_x mv) - sint (src_x mv);
          mvdy = sint (dst_y mv) - sint (src_y mv);
          i_clipped = clipped (dst_y mv) (GridStep cur) (fst (Shape cur));
          j_clipped = clipped (dst_x mv) (GridStep cur) (snd (Shape cur))
      in if i_clipped < MAX_GRID_SIZE \<and> j_clipped < MAX_GRID_SIZE
         then Some (cur\<lparr>Empty := False,
                        dx := (dx cur)((i_clipped, j_clipped) := mvdx),
                        dy := (dy cur)((i_clipped, j_clipped) := mvdy),
                        occupancy := (occupancy cur)((i_clipped, j_clipped) := 1)\<rparr>)
         else None)"

fun bin_vectors :: "FrameInfo \<Rightarrow> AVMotionVector list \<Rightarrow> FrameInfo option" where
  "bin_vectors cur [] = Some cur"
| "bin_vectors cur (mv # mvs) =
     (case bin_vector cur mv of None \<Rightarrow> None | Some cur' \<Rightarrow> bin_vectors cur' mvs)"

section \<open>Neighbour fill\<close>

text \<open>The body of the innermost loop of \<^verbatim>\<open>FillInSomeMissingVectorsInGrid8\<close>.\<close>

definition fill_cell :: "nat \<Rightarrow> nat \<Rightarrow> FrameInfo \<Rightarrow> FrameInfo" where
  "fill_cell i j f =
     (if occupancy f (i, j) = 0 then
        if occupancy f (i, j - 1) \<noteq> 0 \<and> occupancy f (i, j + 1) \<noteq> 0 then
          f\<lparr>dx := (dx f)((i, j) := (dx f (i, j - 1) + dx f (i, j + 1)) sdiv 2),
            dy := (dy f)((i, j) := (dy f (i, j - 1) + dy f (i, j + 1)) sdiv 2),
            occupancy := (occupancy f)((i, j) := 2)\<rparr>
        else if occupancy f (i - 1, j) \<noteq> 0 \<and> occupancy f (i + 1, j) \<noteq> 0 then
          f\<lparr>dx := (dx f)((i, j) := (dx f (i - 1, j) + dx f (i + 1, j)) sdiv 2),
            dy := (dy f)((i, j) := (dy f (i - 1, j) + dy f (i + 1, j)) sdiv 2),
            occupancy := (occupancy f)((i, j) := 2)\<rparr>
        else f
      else f)"

text \<open>One row of a sweep (\<^verbatim>\<open>for j = 1; j < Shape.second - 1\<close>) and one sweep.\<close>

definition fill_row :: "nat \<Rightarrow> FrameInfo \<Rightarrow> FrameInfo" where
  "fill_row i f = fold (fill_cell i) [1 ..< snd (Shape f) - 1] f"

definition fill_sweep :: "FrameInfo \<Rightarrow> FrameInfo" where
  "fill_sweep f = fold fill_row [1 ..< fst (Shape f) - 1] f"

text \<open>
  \<^verbatim>\<open>FillInSomeMissingVectorsInGrid8\<close>: the sweep, twice (\<^verbatim>\<open>for k = 0; k < 2\<close>). The loop
  bounds \<^verbatim>\<open>Shape.first - 1\<close> and \<^verbatim>\<open>Shape.second - 1\<close> are \<^verbatim>\<open>size_t\<close> and wrap to
  \<open>2^64 - 1\<close> when the shape has no row or no column. With no row the row loop then runs
  past every bound; with at least three rows and no column the column loop reads past
  the array. Both are undefined behaviour, \<open>None\<close> here. Everywhere else the natural
  subtraction below is the \<^verbatim>\<open>size_t\<close> one.
\<close>

definition FillInSomeMissingVectorsInGrid8 :: "FrameInfo \<Rightarrow> FrameInfo option" where
  "FillInSomeMissingVectorsInGrid8 f =
     (if fst (Shape f) = 0 \<or> (3 \<le> fst (Shape f) \<and> snd (Shape f) = 0) then None
      else Some (fill_sweep (fill_sweep f)))"

section \<open>Temporal interpolation\<close>

text \<open>
  \<^verbatim>\<open>InterpolateFlow\<close>: the receiver is \<open>this\<close>; both for-statements range over the receiver's
  own shape. (The pipeline only builds shapes of at most 512 rows and columns, so the
  reads and writes stay inside the arrays.)
\<close>

definition interpolate_cell ::
  "FrameInfo \<Rightarrow> FrameInfo \<Rightarrow> nat \<Rightarrow> nat \<Rightarrow> FrameInfo \<Rightarrow> FrameInfo" where
  "interpolate_cell p n i j this =
     this\<lparr>dx := (dx this)((i, j) := (dx p (i, j) + dx n (i, j)) sdiv 2),
          dy := (dy this)((i, j) := (dy p (i, j) + dy n (i, j)) sdiv 2)\<rparr>"

definition interpolate_row :: "FrameInfo \<Rightarrow> FrameInfo \<Rightarrow> nat \<Rightarrow> FrameInfo \<Rightarrow> FrameInfo" where
  "interpolate_row p n i this = fold (interpolate_cell p n i) [0 ..< snd (Shape this)] this"

definition InterpolateFlow :: "FrameInfo \<Rightarrow> FrameInfo \<Rightarrow> FrameInfo \<Rightarrow> FrameInfo" where
  "InterpolateFlow this p n =
     (fold (interpolate_row p n) [0 ..< fst (Shape this)] this)
       \<lparr>Empty := False, Origin := ''interpolated''\<rparr>"

section \<open>Emission\<close>

text \<open>
  What \<^verbatim>\<open>PrintIfNotPrinted\<close> writes to standard output for one grid: the fields of the
  header line and the matrices, row by row, as numbers (the layout of the text, four
  characters per cell, is left out). The shape field is the number of rows times 2, or
  times 3 with \<^verbatim>\<open>--occupancy\<close>, and the number of columns. The occupancy block is only
  written with \<^verbatim>\<open>--occupancy\<close>; it is the empty list otherwise. The printed pts is
  \<^verbatim>\<open>Pts - FirstPts\<close> in 64-bit arithmetic, read as a signed number (an overflow of the
  subtraction, undefined in C++, wraps around here).
\<close>

record block =
  b_pts :: int
  b_frame_index :: int
  b_pict_type :: char
  b_shape :: "nat \<times> nat"
  b_origin :: string
  b_dx :: "int list list"
  b_dy :: "int list list"
  b_occupancy :: "nat list list"

definition matrix :: "nat \<times> nat \<Rightarrow> (nat \<times> nat \<Rightarrow> 'a) \<Rightarrow> 'a list list" where
  "matrix shape a = map (\<lambda>i. map (\<lambda>j. a (i, j)) [0 ..< snd shape]) [0 ..< fst shape]"

definition render :: "bool \<Rightarrow> int64_t \<Rightarrow> FrameInfo \<Rightarrow> block" where
  "render occ firstPts f =
     \<lparr>b_pts = sint (Pts f - firstPts),
      b_frame_index = FrameIndex f,
      b_pict_type = PictType f,
      b_shape = ((if occ then 3 else 2) * fst (Shape f), snd (Shape f)),
      b_origin = Origin f,
      b_dx = matrix (Shape f) (dx f),
      b_dy = matrix (Shape f) (dy f),
      b_occupancy = (if occ then matrix (Shape f) (occupancy f) else [])\<rparr>"

text \<open>
  The function-local static \<^verbatim>\<open>FirstPts\<close> of \<^verbatim>\<open>PrintIfNotPrinted\<close> and standard output.
\<close>

record emitter =
  FirstPts :: int64_t
  out :: "block list"

definition PrintIfNotPrinted :: "bool \<Rightarrow> FrameInfo \<Rightarrow> emitter \<Rightarrow> FrameInfo \<times> emitter" where
  "PrintIfNotPrinted occ f e =
     (if Printed f then (f, e)
      else
        let firstPts = (if FirstPts e = - 1 then Pts f else FirstPts e)
        in (f\<lparr>Printed := True\<rparr>,
            \<lparr>FirstPts = firstPts, out = out e @ [render occ firstPts f]\<rparr>))"

text \<open>\<^verbatim>\<open>for(int i = 0; i < prev.size(); i++) prev[i].PrintIfNotPrinted();\<close>\<close>

fun print_all :: "bool \<Rightarrow> FrameInfo list \<Rightarrow> emitter \<Rightarrow> FrameInfo list \<times> emitter" where
  "print_all occ [] e = ([], e)"
| "print_all occ (f # fs) e =
     (case PrintIfNotPrinted occ f e of (f', e') \<Rightarrow>
        (case print_all occ fs e' of (fs', e'') \<Rightarrow> (f' # fs', e'')))"

section \<open>The arranged pipeline\<close>

text \<open>The static buffer \<^verbatim>\<open>prev\<close> of \<^verbatim>\<open>output_vectors_std\<close>, with the emitter's state.\<close>

record std_state =
  prev :: "FrameInfo list"
  em :: emitter

definition std_init :: std_state where
  "std_init = \<lparr>prev = [], em = \<lparr>FirstPts = - 1, out = []\<rparr>\<rparr>"

definition gridStep_of :: "config \<Rightarrow> nat" where
  "gridStep_of cfg = (if ARG_FORCE_GRID_8 cfg then 8 else 16)"

definition shape_of :: "config \<Rightarrow> nat \<times> nat" where
  "shape_of cfg =
     (min (ffmpeg_frameHeight cfg div gridStep_of cfg) MAX_GRID_SIZE,
      min (ffmpeg_frameWidth cfg div gridStep_of cfg) MAX_GRID_SIZE)"

text \<open>
  The first half of \<^verbatim>\<open>output_vectors_std\<close>: the fresh grid \<^verbatim>\<open>cur\<close>, the binning loop and,
  for the fine grid, the neighbour fill.
\<close>

definition fresh_cur :: "config \<Rightarrow> int \<Rightarrow> int64_t \<Rightarrow> char \<Rightarrow> FrameInfo" where
  "fresh_cur cfg frameIndex pts pictType =
     FrameInfo_new\<lparr>FrameIndex := frameIndex, Pts := pts, Origin := ''video'',
                   PictType := pictType, GridStep := gridStep_of cfg, Shape := shape_of cfg\<rparr>"

definition make_cur ::
  "config \<Rightarrow> int \<Rightarrow> int64_t \<Rightarrow> char \<Rightarrow> AVMotionVector list \<Rightarrow> FrameInfo option" where
  "make_cur cfg frameIndex pts pictType motionVectors =
     (case bin_vectors (fresh_cur cfg frameIndex pts pictType) motionVectors of
        None \<Rightarrow> None
      | Some cur \<Rightarrow>
          if GridStep cur = 8 then FillInSomeMissingVectorsInGrid8 cur else Some cur)"

text \<open>
  The second half: the flush entry, the vector-carrying path with its two cases, and the
  final \<^verbatim>\<open>prev.push_back(cur)\<close>, which every path reaches.
\<close>

definition buffer_step ::
  "bool \<Rightarrow> int \<Rightarrow> AVMotionVector list \<Rightarrow> FrameInfo \<Rightarrow> std_state \<Rightarrow> std_state" where
  "buffer_step occ frameIndex motionVectors cur s =
     (if frameIndex = - 1 then
        (case print_all occ (prev s) (em s) of
           (ps, e) \<Rightarrow> \<lparr>prev = ps @ [cur], em = e\<rparr>)
      else if motionVectors \<noteq> [] then
        (let e1 =
           (if length (prev s) = 2 \<and> Empty (hd (prev s)) = False then
              snd (PrintIfNotPrinted occ
                     (InterpolateFlow (last (prev s)) (hd (prev s)) cur) (em s))
            else snd (print_all occ (prev s) (em s)))
         in case PrintIfNotPrinted occ cur e1 of
              (cur', e2) \<Rightarrow> \<lparr>prev = [cur'], em = e2\<rparr>)
      else \<lparr>prev = prev s @ [cur], em = em s\<rparr>)"

definition output_vectors_std ::
  "config \<Rightarrow> int \<Rightarrow> int64_t \<Rightarrow> char \<Rightarrow> AVMotionVector list \<Rightarrow> std_state
     \<Rightarrow> std_state option" where
  "output_vectors_std cfg frameIndex pts pictType motionVectors s =
     (case make_cur cfg frameIndex pts pictType motionVectors of
        None \<Rightarrow> None
      | Some cur \<Rightarrow>
          Some (buffer_step (ARG_OUTPUT_OCCUPANCY cfg) frameIndex motionVectors cur s))"

section \<open>The raw emitter\<close>

text \<open>
  \<^verbatim>\<open>output_vectors_raw\<close>: the header (with the number of vectors as the shape) and one
  row per vector whose displacement is not zero.
\<close>

record raw_block =
  r_pts :: int
  r_frame_index :: int
  r_pict_type :: char
  r_count :: nat
  r_rows :: "(int \<times> int \<times> int \<times> int) list"

definition raw_row :: "AVMotionVector \<Rightarrow> int \<times> int \<times> int \<times> int" where
  "raw_row mv =
     (sint (dst_x mv), sint (dst_y mv),
      sint (dst_x mv) - sint (src_x mv), sint (dst_y mv) - sint (src_y mv))"

definition output_vectors_raw ::
  "int \<Rightarrow> int64_t \<Rightarrow> char \<Rightarrow> AVMotionVector list \<Rightarrow> raw_block" where
  "output_vectors_raw frameIndex pts pictType motionVectors =
     \<lparr>r_pts = sint pts, r_frame_index = frameIndex, r_pict_type = pictType,
      r_count = length motionVectors,
      r_rows = map raw_row
                 (filter (\<lambda>mv. sint (dst_x mv) - sint (src_x mv) \<noteq> 0
                              \<or> sint (dst_y mv) - sint (src_y mv) \<noteq> 0) motionVectors)\<rparr>"

section \<open>The dispatcher and \<^verbatim>\<open>main\<close>\<close>

text \<open>
  The lines written to standard error: the warning of the duplicate filter, with the
  frame index and \<^verbatim>\<open>int(pts)\<close> (the timestamp cut to 32 bits), and the error of
  \<^verbatim>\<open>main\<close>, with the decoder's return code.
\<close>

datatype stderr_line = Skipping int int | ErrorOccurred int

text \<open>
  The locals of \<^verbatim>\<open>main\<close> that the callback captures by reference (prefixed \<open>m_\<close>), the
  pipeline's statics, and the two output streams. \<^verbatim>\<open>frameIndex\<close> is a C \<^verbatim>\<open>int\<close> counting
  frames from 0; it is modelled as \<open>int\<close> (it would take \<open>2^31\<close> frames to overflow).
\<close>

record main_state =
  m_frameIndex :: int
  m_pts :: int64_t
  m_pictType :: char
  m_prev_pts :: int64_t
  m_motionVectors :: "AVMotionVector list"
  arranged :: std_state
  raw_out :: "raw_block list"
  err :: "stderr_line list"

text \<open>
  \<^verbatim>\<open>main\<close> declares \<^verbatim>\<open>pts\<close> and \<^verbatim>\<open>pictType\<close> without a value; their indeterminate
  initial values are the parameters here.
\<close>

definition main_init :: "int64_t \<Rightarrow> char \<Rightarrow> main_state" where
  "main_init pts0 pictType0 =
     \<lparr>m_frameIndex = 0, m_pts = pts0, m_pictType = pictType0, m_prev_pts = - 1,
      m_motionVectors = [], arranged = std_init, raw_out = [], err = []\<rparr>"

text \<open>
  The lambda \<^verbatim>\<open>frameCallback\<close>. The comparison \<^verbatim>\<open>pts <= prev_pts\<close> is the signed one on
  \<^verbatim>\<open>int64_t\<close>.
\<close>

definition frameCallback :: "config \<Rightarrow> int64_t \<Rightarrow> char \<Rightarrow> main_state \<Rightarrow> main_state option" where
  "frameCallback cfg newPts newPictType m0 =
     (let m = m0\<lparr>m_frameIndex := m_frameIndex m0 + 1, m_pts := newPts,
                 m_pictType := newPictType\<rparr>
      in if m_pts m \<le>s m_prev_pts m \<and> m_prev_pts m \<noteq> - 1 then
           Some (if \<not> ARG_QUIET cfg
                 then m\<lparr>err := err m @ [Skipping (m_frameIndex m)
                                           (sint (ucast (m_pts m) :: 32 word))]\<rparr>
                 else m)
         else if ARG_OUTPUT_RAW_MOTION_VECTORS cfg then
           Some (m\<lparr>raw_out := raw_out m @
                      [output_vectors_raw (m_frameIndex m) (m_pts m) (m_pictType m)
                         (m_motionVectors m)],
                   m_prev_pts := m_pts m\<rparr>)
         else
           (case output_vectors_std cfg (m_frameIndex m) (m_pts m) (m_pictType m)
                   (m_motionVectors m) (arranged m) of
              None \<Rightarrow> None
            | Some s \<Rightarrow> Some (m\<lparr>arranged := s, m_prev_pts := m_pts m\<rparr>)))"

text \<open>
  \<^verbatim>\<open>for_each_frame\<close>, seen from the pipeline: the decoder library (not part of the
  repository) yields decoded frames one after the other; for each, the loop stores the
  frame's vectors in \<^verbatim>\<open>motionVectors\<close> and calls the callback with the timestamp and
  the picture type. A delivery is the triple (pts, picture type, vectors).
\<close>

type_synonym delivery = "int64_t \<times> char \<times> AVMotionVector list"

fun for_each_frame :: "config \<Rightarrow> delivery list \<Rightarrow> main_state \<Rightarrow> main_state option" where
  "for_each_frame cfg [] m = Some m"
| "for_each_frame cfg ((newPts, newPictType, mvs) # ds) m =
     (case frameCallback cfg newPts newPictType (m\<lparr>m_motionVectors := mvs\<rparr>) of
        None \<Rightarrow> None
      | Some m' \<Rightarrow> for_each_frame cfg ds m')"

text \<open>
  \<^verbatim>\<open>main\<close> after option parsing and \<^verbatim>\<open>ffmpeg_init\<close>: the decode loop, then either the
  error exit or the flush call with the sentinel frame index \<open>-1\<close>. The result is the
  exit code and the final state. \<open>ret\<close> is what \<^verbatim>\<open>for_each_frame\<close> returned when the
  decoder stopped delivering; \<open>AVERROR_EOF\<close> is the decoder library's end-of-stream
  code, a macro of a header outside the repository, and a parameter here.
\<close>

definition main ::
  "config \<Rightarrow> int \<Rightarrow> int64_t \<Rightarrow> char \<Rightarrow> delivery list \<Rightarrow> int \<Rightarrow> (nat \<times> main_state) option" where
  "main cfg AVERROR_EOF pts0 pictType0 ds ret =
     (case for_each_frame cfg ds (main_init pts0 pictType0) of
        None \<Rightarrow> None
      | Some m \<Rightarrow>
          if ret < 0 \<and> ret \<noteq> AVERROR_EOF then
            Some (1, m\<lparr>err := err m @ [ErrorOccurred ret]\<rparr>)
          else if ARG_OUTPUT_RAW_MOTION_VECTORS cfg = False then
            (case output_vectors_std cfg (- 1) (m_pts m) (m_pictType m)
                    (m_motionVectors m) (arranged m) of
               None \<Rightarrow> None
             | Some s \<Rightarrow> Some (0, m\<lparr>arranged := s\<rparr>))
          else Some (0, m))"

section \<open>Auxiliary notions for the proofs\<close>

text \<open>The fields of a grid that neither binning nor the neighbour fill writes.\<close>

definition same_meta :: "FrameInfo \<Rightarrow> FrameInfo \<Rightarrow> bool" where
  "same_meta f g \<longleftrightarrow>
     GridStep g = GridStep f \<and> Shape g = Shape f \<and> Pts g = Pts f \<and>
     FrameIndex g = FrameIndex f \<and> PictType g = PictType f \<and> Origin g = Origin f \<and>
     Printed g = Printed f"

section \<open>Concrete inputs for the worked examples\<close>

text \<open>
  A 64 by 64 pixel stream; at the default step 16 its grids have 4 rows and 4 columns,
  with \<^verbatim>\<open>--grid8x8\<close> 8 rows and 8 columns. \<open>vec sx sy x y\<close> is the decoder vector from
  (sx, sy) to (x, y).
\<close>

definition cfg16 :: config where
  "cfg16 = \<lparr>ARG_OUTPUT_RAW_MOTION_VECTORS = False, ARG_FORCE_GRID_8 = False,
            ARG_OUTPUT_OCCUPANCY = True, ARG_QUIET = False,
            ffmpeg_frameWidth = 64, ffmpeg_frameHeight = 64\<rparr>"

definition cfg8 :: config where
  "cfg8 = cfg16\<lparr>ARG_FORCE_GRID_8 := True\<rparr>"

definition vec :: "int \<Rightarrow> int \<Rightarrow> int \<Rightarrow> int \<Rightarrow> AVMotionVector" where
  "vec sx sy x y =
     \<lparr>src_x = word_of_int sx, src_y = word_of_int sy,
      dst_x = word_of_int x, dst_y = word_of_int y\<rparr>"

section \<open>Sequences of calls\<close>

text \<open>
  The calls of \<^verbatim>\<open>output_vectors_std\<close> one after the other, as the dispatcher makes them:
  each call is (frame index, pts, picture type, vectors); the static state of one call is
  what the next call finds. A call that runs into undefined behaviour ends the run.
\<close>

type_synonym call = "int \<times> int64_t \<times> char \<times> AVMotionVector list"

fun run_std :: "config \<Rightarrow> call list \<Rightarrow> std_state \<Rightarrow> std_state option" where
  "run_std cfg [] s = Some s"
| "run_std cfg ((frameIndex, pts, pictType, motionVectors) # cs) s =
     (case output_vectors_std cfg frameIndex pts pictType motionVectors s of
        None \<Rightarrow> None
      | Some s' \<Rightarrow> run_std cfg cs s')"

definition call_index :: "call \<Rightarrow> int" where
  "call_index c = fst c"

definition call_vectors :: "call \<Rightarrow> AVMotionVector list" where
  "call_vectors c = snd (snd (snd c))"

text \<open>A block without its timestamp: the rest of the header and the matrices.\<close>

definition unstamped :: "block \<Rightarrow> block" where
  "unstamped b = b\<lparr>b_pts := 0\<rparr>"

text \<open>
  What holds of the buffer between the calls for decoded frames: a grid in it has been
  printed exactly if it carries vectors, and only its first grid can carry vectors.
\<close>

definition buffer_inv :: "std_state \<Rightarrow> bool" where
  "buffer_inv s \<longleftrightarrow>
     (\<forall>f\<in>set (prev s). Printed f \<longleftrightarrow> \<not> Empty f) \<and> (\<forall>f\<in>set (tl (prev s)). Empty f)"

section \<open>The neighbour fill in the spec's words\<close>

text \<open>The three values the grid holds for one cell.\<close>

definition cell :: "FrameInfo \<Rightarrow> nat \<times> nat \<Rightarrow> int \<times> int \<times> nat" where
  "cell f c = (dx f c, dy f c, occupancy f c)"

text \<open>The interior cells of a grid: \<open>1 \<le> i \<le> rows - 2\<close> and \<open>1 \<le> j \<le> cols - 2\<close>.\<close>

definition interior :: "nat \<times> nat \<Rightarrow> nat \<times> nat \<Rightarrow> bool" where
  "interior shape c \<longleftrightarrow>
     1 \<le> fst c \<and> fst c + 2 \<le> fst shape \<and> 1 \<le> snd c \<and> snd c + 2 \<le> snd shape"

text \<open>
  The truncating mean of two cells, marked as filled (occupancy 2).
\<close>

definition mean_cell :: "int \<times> int \<times> nat \<Rightarrow> int \<times> int \<times> nat \<Rightarrow> int \<times> int \<times> nat" where
  "mean_cell a b = ((fst a + fst b) sdiv 2, (fst (snd a) + fst (snd b)) sdiv 2, 2)"

text \<open>
  What one sweep does to the cell (i, j), in the words of the spec: \<open>f\<close> is the grid
  before the sweep and \<open>g\<close> the grid after it. A cell that is not interior, or whose
  occupancy is not 0, is left as it is. An empty interior cell becomes the mean of its
  left and right neighbours if both are occupied, otherwise the mean of its upper and
  lower neighbours if both are occupied, otherwise it is left as it is. The sweep visits
  the cells row by row, left to right, so when it reaches a cell the left and the upper
  neighbour already have their value of after the sweep, and the right and the lower
  neighbour still have their value of before.
\<close>

definition swept_cell :: "FrameInfo \<Rightarrow> FrameInfo \<Rightarrow> nat \<Rightarrow> nat \<Rightarrow> bool" where
  "swept_cell f g i j \<longleftrightarrow>
     cell g (i, j) =
       (if interior (Shape f) (i, j) \<and> occupancy f (i, j) = 0 then
          if occupancy g (i, j - 1) \<noteq> 0 \<and> occupancy f (i, j + 1) \<noteq> 0
          then mean_cell (cell g (i, j - 1)) (cell f (i, j + 1))
          else if occupancy g (i - 1, j) \<noteq> 0 \<and> occupancy f (i + 1, j) \<noteq> 0
          then mean_cell (cell g (i - 1, j)) (cell f (i + 1, j))
          else cell f (i, j)
        else cell f (i, j))"

section \<open>Occupancy and displacement\<close>

text \<open>The cell a decoder vector is binned into, with the stream's step and shape.\<close>

definition target_cell :: "config \<Rightarrow> AVMotionVector \<Rightarrow> nat \<times> nat" where
  "target_cell cfg mv =
     (clipped (dst_y mv) (gridStep_of cfg) (fst (shape_of cfg)),
      clipped (dst_x mv) (gridStep_of cfg) (snd (shape_of cfg)))"

text \<open>A grid whose cells of occupancy 0 all have displacement zero.\<close>

definition cells_zero :: "FrameInfo \<Rightarrow> bool" where
  "cells_zero f \<longleftrightarrow> (\<forall>c. occupancy f c = 0 \<longrightarrow> dx f c = 0 \<and> dy f c = 0)"

text \<open>
  The same for a block written with \<^verbatim>\<open>--occupancy\<close>, on the printed matrices: wherever the
  occupancy block shows 0, the two displacement blocks show 0.
\<close>

definition block_cells_zero :: "block \<Rightarrow> bool" where
  "block_cells_zero b \<longleftrightarrow>
     (\<forall>i < length (b_occupancy b). \<forall>j < length (b_occupancy b ! i).
        b_occupancy b ! i ! j = 0 \<longrightarrow> b_dx b ! i ! j = 0 \<and> b_dy b ! i ! j = 0)"

text \<open>
  What the pipeline keeps true of its grids: in every buffered grid the cells of occupancy
  0 hold displacement zero, and every block of origin "video" on standard output shows
  such a grid.
\<close>

definition grids_ok :: "bool \<Rightarrow> std_state \<Rightarrow> bool" where
  "grids_ok occ s \<longleftrightarrow>
     (\<forall>f\<in>set (prev s). cells_zero f) \<and>
     (\<forall>b\<in>set (out (em s)). b_origin b = ''video'' \<longrightarrow>
        (\<exists>f fp. cells_zero f \<and> b = render occ fp f))"

text \<open>
  A grid whose displacements are differences of two 16-bit values or means of such:
  within 65535 of zero, so that the sum of two cells is far inside the range of a C
  \<^verbatim>\<open>int\<close>.
\<close>

definition cells_bounded :: "FrameInfo \<Rightarrow> bool" where
  "cells_bounded f \<longleftrightarrow> (\<forall>c. \<bar>dx f c\<bar> \<le> 65535 \<and> \<bar>dy f c\<bar> \<le> 65535)"

section \<open>Header lines\<close>

text \<open>
  The two numbers that identify a header line, the frame index and the printed pts; the
  frame index and the decoder's pts of a grid, and of a call.
\<close>

definition header :: "block \<Rightarrow> int \<times> int" where
  "header b = (b_frame_index b, b_pts b)"

definition stamp :: "FrameInfo \<Rightarrow> int \<times> int64_t" where
  "stamp f = (FrameIndex f, Pts f)"

definition call_stamp :: "call \<Rightarrow> int \<times> int64_t" where
  "call_stamp c = (fst c, fst (snd c))"

text \<open>
  The header lines that grids get when they are emitted one after the other, the
  emitter's baseline being \<open>fp\<close> before the first of them: every emission takes the
  grid's own pts as the baseline if the baseline is -1, and prints the pts minus the
  baseline. \<open>baseline_after\<close> is the baseline that these emissions leave.
\<close>

fun rebased :: "int64_t \<Rightarrow> (int \<times> int64_t) list \<Rightarrow> (int \<times> int) list" where
  "rebased fp [] = []"
| "rebased fp ((i, p) # xs) =
     (i, sint (p - (if fp = - 1 then p else fp))) # rebased (if fp = - 1 then p else fp) xs"

fun baseline_after :: "int64_t \<Rightarrow> (int \<times> int64_t) list \<Rightarrow> int64_t" where
  "baseline_after fp [] = fp"
| "baseline_after fp ((i, p) # xs) = baseline_after (if fp = - 1 then p else fp) xs"

section \<open>The grids a run emits\<close>

text \<open>
  The grids that one call of \<^verbatim>\<open>output_vectors_std\<close> prints, as they are when they are
  printed and in the order in which they are printed: the grids on which the call invokes
  \<^verbatim>\<open>PrintIfNotPrinted\<close> while their flag \<^verbatim>\<open>Printed\<close> is not set. The flush call invokes
  it on every grid of the buffer; a call with vectors invokes it on the last grid of the
  buffer after \<^verbatim>\<open>InterpolateFlow\<close> (buffer of length 2 with a non-empty first grid) or
  else on every grid of the buffer, and then on \<^verbatim>\<open>cur\<close>; a call without vectors prints
  nothing.
\<close>

definition emitted_in_call ::
  "int \<Rightarrow> AVMotionVector list \<Rightarrow> FrameInfo \<Rightarrow> std_state \<Rightarrow> FrameInfo list" where
  "emitted_in_call frameIndex motionVectors cur s =
     (if frameIndex = - 1 then filter (\<lambda>f. \<not> Printed f) (prev s)
      else if motionVectors \<noteq> [] then
        (if length (prev s) = 2 \<and> Empty (hd (prev s)) = False
         then filter (\<lambda>f. \<not> Printed f) [InterpolateFlow (last (prev s)) (hd (prev s)) cur]
         else filter (\<lambda>f. \<not> Printed f) (prev s))
        @ filter (\<lambda>f. \<not> Printed f) [cur]
      else [])"

text \<open>The grids that a sequence of calls prints, call after call, from the state \<open>s\<close>.\<close>

fun emitted_in_run :: "config \<Rightarrow> call list \<Rightarrow> std_state \<Rightarrow> FrameInfo list" where
  "emitted_in_run cfg [] s = []"
| "emitted_in_run cfg ((frameIndex, pts, pictType, motionVectors) # cs) s =
     (case make_cur cfg frameIndex pts pictType motionVectors of
        None \<Rightarrow> []
      | Some cur \<Rightarrow>
          emitted_in_call frameIndex motionVectors cur s @
          emitted_in_run cfg cs
            (buffer_step (ARG_OUTPUT_OCCUPANCY cfg) frameIndex motionVectors cur s))"

text \<open>
  The blocks that \<^verbatim>\<open>PrintIfNotPrinted\<close> writes for a list of unprinted grids, one after
  the other, the baseline being \<open>fp\<close> before the first.
\<close>

fun render_all :: "bool \<Rightarrow> int64_t \<Rightarrow> FrameInfo list \<Rightarrow> block list" where
  "render_all occ fp [] = []"
| "render_all occ fp (g # gs) =
     render occ (if fp = - 1 then Pts g else fp) g #
     render_all occ (if fp = - 1 then Pts g else fp) gs"

section \<open>Facts about the clamp\<close>

text \<open>
  The index computation is done in \<^verbatim>\<open>size_t\<close>. With at least one row, the result is a row
  of the grid; a non-negative coordinate is divided and capped, a negative one is a huge
  unsigned number and lands on the last row.
\<close>

lemma unat_min_word: "unat (min a b) = min (unat a) (unat (b :: 'a::len word))"
  by (simp add: min_def word_le_nat_alt)

lemma max_zero_word: "max (0 :: 'a::len word) x = x"
  by (simp add: max_def)

lemma unat_rows_minus_1:
  assumes "0 < n" "n \<le> MAX_GRID_SIZE"
  shows "unat (word_of_nat n - 1 :: size_t) = n - 1"
proof -
  have n: "n < 2 ^ 64" using assms by (simp add: MAX_GRID_SIZE_def)
  have u: "unat (word_of_nat n :: size_t) = n"
    using n by (simp only: unat_of_nat) simp
  have "(1 :: size_t) \<le> word_of_nat n"
    using u assms by (simp add: word_le_nat_alt)
  then have "unat (word_of_nat n - 1 :: size_t) = unat (word_of_nat n :: size_t) - unat (1 :: size_t)"
    by (rule unat_sub)
  then show ?thesis using u by simp
qed

lemma clipped_upper:
  assumes "0 < n" "n \<le> MAX_GRID_SIZE"
  shows "clipped d g n < n"
  using assms unat_rows_minus_1[OF assms]
  by (simp add: clipped_def max_zero_word unat_min_word)

lemma sint16_range: "- 32768 \<le> sint (d :: 16 word) \<and> sint d \<le> 32767"
  using sint_range_size[of d] by (simp add: word_size)

lemma uint_scast_16_64: "uint (scast (d :: int16_t) :: size_t) = sint d mod 2 ^ 64"
  by (simp only: scast_eq uint_word_of_int) simp

lemma unat_scast_neg:
  assumes "sint (d :: int16_t) < 0"
  shows "unat (scast d :: size_t) = 2 ^ 64 - nat (- sint d)"
proof -
  have r: "- 32768 \<le> sint d" using sint16_range[of d] by simp
  have "sint d mod 2 ^ 64 = (sint d + 2 ^ 64) mod 2 ^ 64"
    by (simp only: mod_add_self2)
  also have "\<dots> = sint d + 2 ^ 64"
    by (rule mod_pos_pos_trivial) (use assms r in simp_all)
  finally have "uint (scast d :: size_t) = sint d + 2 ^ 64"
    by (simp only: uint_scast_16_64)
  then have "unat (scast d :: size_t) = nat (sint d + 2 ^ 64)"
    by (simp only: unat_eq_nat_uint)
  then show ?thesis using assms r by simp
qed

lemma unat_scast_nonneg:
  assumes "0 \<le> sint (d :: int16_t)"
  shows "unat (scast d :: size_t) = nat (sint d)"
proof -
  have r: "sint d \<le> 32767" using sint16_range[of d] by simp
  have "sint d mod 2 ^ 64 = sint d"
    by (rule mod_pos_pos_trivial) (use assms r in simp_all)
  then have "uint (scast d :: size_t) = sint d"
    by (simp only: uint_scast_16_64)
  then show ?thesis by (simp only: unat_eq_nat_uint)
qed

lemma clipped_negative:
  assumes "sint d < 0" "0 < n" "n \<le> MAX_GRID_SIZE" "g = 8 \<or> g = 16"
  shows "clipped d g n = n - 1"
proof -
  have r: "- 32768 \<le> sint d" using sint16_range[of d] by simp
  define m where "m = nat (- sint d)"
  have m: "0 < m" "m \<le> 32768" using assms r by (simp_all add: m_def)
  have g: "unat (word_of_nat g :: size_t) = g" using assms(4) by auto
  have "unat ((scast d :: size_t) div word_of_nat g) = (2 ^ 64 - m) div g"
    by (simp add: unat_div g unat_scast_neg[OF assms(1)] m_def)
  moreover have "n - 1 \<le> (2 ^ 64 - m) div g"
    using m assms(3,4) by (auto simp: MAX_GRID_SIZE_def)
  ultimately show ?thesis
    using unat_rows_minus_1[OF assms(2,3)]
    by (simp add: clipped_def max_zero_word unat_min_word)
qed

lemma clipped_nonneg:
  assumes "0 \<le> sint d" "0 < n" "n \<le> MAX_GRID_SIZE" "g = 8 \<or> g = 16"
  shows "clipped d g n = min (nat (sint d) div g) (n - 1)"
proof -
  have g: "unat (word_of_nat g :: size_t) = g" using assms(4) by auto
  show ?thesis
    using unat_rows_minus_1[OF assms(2,3)]
    by (simp add: clipped_def max_zero_word unat_min_word unat_div g unat_scast_nonneg[OF assms(1)])
qed

section \<open>Fields that binning and filling do not touch\<close>

lemma same_meta_refl [simp]: "same_meta f f"
  by (simp add: same_meta_def)

lemma same_meta_trans: "same_meta f g \<Longrightarrow> same_meta g h \<Longrightarrow> same_meta f h"
  by (simp add: same_meta_def)

lemma bin_vector_meta: "bin_vector cur mv = Some cur' \<Longrightarrow> same_meta cur cur' \<and> \<not> Empty cur'"
  by (auto simp: bin_vector_def Let_def same_meta_def split: if_splits)

lemma bin_vectors_meta:
  "bin_vectors cur mvs = Some cur' \<Longrightarrow>
     same_meta cur cur' \<and> (Empty cur' \<longleftrightarrow> Empty cur \<and> mvs = [])"
proof (induction mvs arbitrary: cur)
  case Nil
  then show ?case by simp
next
  case (Cons mv mvs)
  then obtain c where c: "bin_vector cur mv = Some c" and r: "bin_vectors c mvs = Some cur'"
    by (auto split: option.splits)
  from bin_vector_meta[OF c] Cons.IH[OF r] show ?case
    by (auto intro: same_meta_trans)
qed

lemma bin_vector_Some:
  assumes "0 < fst (Shape cur)" "fst (Shape cur) \<le> MAX_GRID_SIZE"
    and "0 < snd (Shape cur)" "snd (Shape cur) \<le> MAX_GRID_SIZE"
  shows "\<exists>cur'. bin_vector cur mv = Some cur'"
proof -
  have "clipped (dst_y mv) (GridStep cur) (fst (Shape cur)) < MAX_GRID_SIZE"
    using clipped_upper[OF assms(1,2)] assms(2) by (meson less_le_trans)
  moreover have "clipped (dst_x mv) (GridStep cur) (snd (Shape cur)) < MAX_GRID_SIZE"
    using clipped_upper[OF assms(3,4)] assms(4) by (meson less_le_trans)
  ultimately show ?thesis by (simp add: bin_vector_def Let_def)
qed

lemma bin_vectors_Some:
  assumes "0 < fst (Shape cur)" "fst (Shape cur) \<le> MAX_GRID_SIZE"
    and "0 < snd (Shape cur)" "snd (Shape cur) \<le> MAX_GRID_SIZE"
  shows "\<exists>cur'. bin_vectors cur mvs = Some cur'"
  using assms
proof (induction mvs arbitrary: cur)
  case Nil
  then show ?case by simp
next
  case (Cons mv mvs)
  from bin_vector_Some[OF Cons.prems] obtain c where c: "bin_vector cur mv = Some c" by blast
  then have "Shape c = Shape cur" using bin_vector_meta[OF c] by (simp add: same_meta_def)
  with Cons.IH[of c] Cons.prems c show ?case by simp
qed

lemma fill_cell_meta: "same_meta f (fill_cell i j f) \<and> Empty (fill_cell i j f) = Empty f"
  by (simp add: fill_cell_def same_meta_def)

lemma fold_fill_cell_meta:
  "same_meta f (fold (fill_cell i) js f) \<and> Empty (fold (fill_cell i) js f) = Empty f"
proof (induction js arbitrary: f)
  case Nil
  then show ?case by simp
next
  case (Cons j js)
  from Cons.IH[of "fill_cell i j f"] fill_cell_meta[of f i j] show ?case
    by (auto intro: same_meta_trans)
qed

lemma fill_row_meta: "same_meta f (fill_row i f) \<and> Empty (fill_row i f) = Empty f"
  by (simp add: fill_row_def fold_fill_cell_meta)

lemma fold_fill_row_meta:
  "same_meta f (fold fill_row is f) \<and> Empty (fold fill_row is f) = Empty f"
proof (induction "is" arbitrary: f)
  case Nil
  then show ?case by simp
next
  case (Cons i "is")
  from Cons.IH[of "fill_row i f"] fill_row_meta[of f i] show ?case
    by (auto intro: same_meta_trans)
qed

lemma fill_sweep_meta: "same_meta f (fill_sweep f) \<and> Empty (fill_sweep f) = Empty f"
  by (simp add: fill_sweep_def fold_fill_row_meta)

lemma shape_of_le: "fst (shape_of cfg) \<le> MAX_GRID_SIZE \<and> snd (shape_of cfg) \<le> MAX_GRID_SIZE"
  by (simp add: shape_of_def)

lemma gridStep_of_cases: "gridStep_of cfg = 8 \<or> gridStep_of cfg = 16"
  by (simp add: gridStep_of_def)

lemma fresh_cur_fields:
  "Shape (fresh_cur cfg fi p t) = shape_of cfg"
  "GridStep (fresh_cur cfg fi p t) = gridStep_of cfg"
  "FrameIndex (fresh_cur cfg fi p t) = fi"
  "Pts (fresh_cur cfg fi p t) = p"
  "PictType (fresh_cur cfg fi p t) = t"
  "Origin (fresh_cur cfg fi p t) = ''video''"
  "Empty (fresh_cur cfg fi p t)"
  "\<not> Printed (fresh_cur cfg fi p t)"
  by (simp_all add: fresh_cur_def FrameInfo_new_def)

lemma make_cur_meta:
  assumes "make_cur cfg fi p t mvs = Some cur"
  shows "Shape cur = shape_of cfg" "GridStep cur = gridStep_of cfg" "FrameIndex cur = fi"
    "Pts cur = p" "PictType cur = t" "Origin cur = ''video''" "\<not> Printed cur"
    "Empty cur \<longleftrightarrow> mvs = []"
proof -
  from assms obtain b where b: "bin_vectors (fresh_cur cfg fi p t) mvs = Some b"
    and c: "cur = b \<or> cur = fill_sweep (fill_sweep b)"
    by (auto simp: make_cur_def FillInSomeMissingVectorsInGrid8_def split: option.splits if_splits)
  have m: "same_meta (fresh_cur cfg fi p t) cur \<and> (Empty cur \<longleftrightarrow> mvs = [])"
    using c bin_vectors_meta[OF b] fill_sweep_meta[of b] fill_sweep_meta[of "fill_sweep b"]
    by (auto simp: fresh_cur_fields intro: same_meta_trans)
  then show "Shape cur = shape_of cfg" "GridStep cur = gridStep_of cfg" "FrameIndex cur = fi"
    "Pts cur = p" "PictType cur = t" "Origin cur = ''video''" "\<not> Printed cur"
    "Empty cur \<longleftrightarrow> mvs = []"
    by (simp_all add: same_meta_def fresh_cur_fields)
qed

lemma make_cur_Some:
  assumes "0 < fst (shape_of cfg)" "0 < snd (shape_of cfg)"
  shows "\<exists>cur. make_cur cfg fi p t mvs = Some cur"
proof -
  have "\<exists>b. bin_vectors (fresh_cur cfg fi p t) mvs = Some b"
    by (rule bin_vectors_Some) (use assms shape_of_le[of cfg] in \<open>simp_all add: fresh_cur_fields\<close>)
  then obtain b where b: "bin_vectors (fresh_cur cfg fi p t) mvs = Some b" by blast
  then have "Shape b = shape_of cfg"
    using bin_vectors_meta[OF b] by (simp add: same_meta_def fresh_cur_fields)
  then show ?thesis using assms b
    by (simp add: make_cur_def FillInSomeMissingVectorsInGrid8_def)
qed

section \<open>The clamp on a negative coordinate\<close>

text \<open>
  Claim C3 says that binning stores a vector at row \<open>clamp(dst_y / grid_step, 0, rows - 1)\<close>,
  so that a vector with a negative \<open>dst_y\<close> maps to row 0. The source computes the
  index in unsigned arithmetic (lemma \<open>clipped_negative\<close>: every negative coordinate
  lands on the last row or column). Evaluated on a 4 by 4 grid at step 16, for the single
  vector from (16, 2) to (16, -1): the cell of row 3, column 1 is marked occupied and
  holds the displacement (0, -3); rows 0, 1 and 2 of that column stay empty.
\<close>

theorem negative_dst_y_binned_on_last_row:
  "map_option (\<lambda>c. (map (\<lambda>i. occupancy c (i, 1)) [0, 1, 2, 3], dx c (3, 1), dy c (3, 1)))
     (make_cur cfg16 1 0 (CHR ''P'') [vec 16 2 16 (- 1)])
   = Some ([0, 0, 0, 1], 0, - 3)"
  by code_simp

section \<open>The timestamp \<open>-1\<close>\<close>

text \<open>
  Both the dispatcher's \<^verbatim>\<open>prev_pts\<close> and the emitter's \<^verbatim>\<open>FirstPts\<close> use \<open>-1\<close> for
  "not set yet", and \<open>-1\<close> is also a timestamp the decoder can deliver. Away from that
  value both do what they are meant to do.
\<close>

lemma PrintIfNotPrinted_baseline_set:
  assumes "FirstPts e \<noteq> - 1" "\<not> Printed f"
  shows "PrintIfNotPrinted occ f e =
           (f\<lparr>Printed := True\<rparr>,
            e\<lparr>out := out e @ [render occ (FirstPts e) f]\<rparr>)"
  using assms by (simp add: PrintIfNotPrinted_def Let_def)

lemma frameCallback_drops:
  assumes "m_prev_pts m \<noteq> - 1" "newPts \<le>s m_prev_pts m"
  shows "frameCallback cfg newPts newPictType m =
           Some (m\<lparr>m_frameIndex := m_frameIndex m + 1, m_pts := newPts,
                   m_pictType := newPictType,
                   err := err m @ (if ARG_QUIET cfg then []
                                    else [Skipping (m_frameIndex m + 1)
                                            (sint (ucast newPts :: 32 word))])\<rparr>)"
  using assms by (simp add: frameCallback_def Let_def)

text \<open>
  Claim C5 says that in arranged mode every emitted header pts is the grid's pts minus
  the pts of the first emitted grid, the baseline being initialised exactly once, also
  for streams that start at a negative pts. Evaluated on the stream of two frames with
  pts -1 and 0, each with one vector: clean exit, two headers, for frame 1 with pts 0 and
  for frame 2 with pts 0 again (not 0 - (-1) = 1): the first emission leaves the baseline
  at \<open>-1\<close>, which the second emission takes for "not set" and overwrites.
\<close>

theorem baseline_reset_after_pts_minus_one:
  "map_option (\<lambda>r. (fst r, map (\<lambda>b. (b_frame_index b, b_pts b)) (out (em (arranged (snd r)))),
                      FirstPts (em (arranged (snd r)))))
     (main cfg16 (- 541478725) 0 (CHR ''?'')
        [(- 1, CHR ''I'', [vec 13 18 16 16]), (0, CHR ''P'', [vec 13 18 16 16])]
        (- 541478725))
   = Some (0, [(1, 0), (2, 0)], 0)"
  by code_simp

text \<open>
  Claim C7 says that a frame whose pts is less than or equal to the pts of the last
  forwarded frame is dropped with a warning, so that two successive frames with equal
  pts produce exactly one emission, for every pts including negative ones. Evaluated on
  two frames that both have pts -1: clean exit, both frames are forwarded and emitted
  (headers for frame 1 and frame 2), and nothing is written to standard error.
\<close>

theorem duplicate_pts_minus_one_forwarded_twice:
  "map_option (\<lambda>r. (fst r, map b_frame_index (out (em (arranged (snd r)))), err (snd r)))
     (main cfg16 (- 541478725) 0 (CHR ''?'')
        [(- 1, CHR ''I'', [vec 13 18 16 16]), (- 1, CHR ''P'', [vec 13 18 16 16])]
        (- 541478725))
   = Some (0, [1, 2], [])"
  by code_simp

section \<open>The emitter\<close>

lemma unstamped_render: "unstamped (render occ fp f) = unstamped (render occ 0 f)"
  by (simp add: unstamped_def render_def)

lemma PrintIfNotPrinted_printed: "Printed (fst (PrintIfNotPrinted occ f e))"
  by (simp add: PrintIfNotPrinted_def Let_def)

lemma PrintIfNotPrinted_noop: "Printed f \<Longrightarrow> PrintIfNotPrinted occ f e = (f, e)"
  by (simp add: PrintIfNotPrinted_def)

lemma PrintIfNotPrinted_out:
  "out (snd (PrintIfNotPrinted occ f e)) =
     out e @ (if Printed f then []
              else [render occ (if FirstPts e = - 1 then Pts f else FirstPts e) f])"
  by (simp add: PrintIfNotPrinted_def Let_def)

lemma print_all_Cons:
  "print_all occ (f # fs) e =
     (fst (PrintIfNotPrinted occ f e) # fst (print_all occ fs (snd (PrintIfNotPrinted occ f e))),
      snd (print_all occ fs (snd (PrintIfNotPrinted occ f e))))"
  by (simp split: prod.splits)

lemma print_all_length: "length (fst (print_all occ fs e)) = length fs"
  by (induction fs arbitrary: e) (simp_all only: print_all_Cons print_all.simps fst_conv list.size)

lemma print_all_printed: "f \<in> set (fst (print_all occ fs e)) \<Longrightarrow> Printed f"
proof (induction fs arbitrary: e)
  case Nil
  then show ?case by simp
next
  case (Cons g gs)
  from Cons.prems have "f = fst (PrintIfNotPrinted occ g e)
      \<or> f \<in> set (fst (print_all occ gs (snd (PrintIfNotPrinted occ g e))))"
    by (simp only: print_all_Cons fst_conv set_ConsD list.set insert_iff)
  then show ?case using Cons.IH PrintIfNotPrinted_printed by auto
qed

lemma print_all_out:
  "\<exists>new. out (snd (print_all occ fs e)) = out e @ new \<and>
         map unstamped new = map (\<lambda>f. unstamped (render occ 0 f)) (filter (\<lambda>f. \<not> Printed f) fs)"
proof (induction fs arbitrary: e)
  case Nil
  then show ?case by simp
next
  case (Cons g gs)
  let ?e' = "snd (PrintIfNotPrinted occ g e)"
  let ?b = "render occ (if FirstPts e = - 1 then Pts g else FirstPts e) g"
  from Cons.IH[of ?e'] obtain new where
    n: "out (snd (print_all occ gs ?e')) = out ?e' @ new"
       "map unstamped new = map (\<lambda>f. unstamped (render occ 0 f)) (filter (\<lambda>f. \<not> Printed f) gs)"
    by blast
  have o: "out ?e' = out e @ (if Printed g then [] else [?b])"
    by (rule PrintIfNotPrinted_out)
  have s: "snd (print_all occ (g # gs) e) = snd (print_all occ gs ?e')"
    by (simp only: print_all_Cons snd_conv)
  show ?case
  proof (cases "Printed g")
    case True
    with n o s show ?thesis by simp
  next
    case False
    have "out (snd (print_all occ (g # gs) e)) = out e @ (?b # new)"
      using n(1) o s False by simp
    moreover have "map unstamped (?b # new) =
        map (\<lambda>f. unstamped (render occ 0 f)) (filter (\<lambda>f. \<not> Printed f) (g # gs))"
      using n(2) False unstamped_render[of occ _ g] by simp
    ultimately show ?thesis by blast
  qed
qed

section \<open>The length of the buffer\<close>

text \<open>
  Every call with vectors leaves exactly one grid in the buffer; every other call appends
  one. Nothing else bounds the buffer.
\<close>

lemma buffer_step_length:
  "length (prev (buffer_step occ fi mvs cur s)) =
     (if fi \<noteq> - 1 \<and> mvs \<noteq> [] then 1 else Suc (length (prev s)))"
proof -
  have "length (fst (print_all occ (prev s) (em s))) = length (prev s)"
    by (rule print_all_length)
  then show ?thesis
    by (auto simp: buffer_step_def Let_def split: prod.splits)
qed

lemma run_std_append:
  "run_std cfg (cs @ ds) s =
     (case run_std cfg cs s of None \<Rightarrow> None | Some s' \<Rightarrow> run_std cfg ds s')"
  by (induction cs arbitrary: s) (auto split: option.splits)

lemma run_std_snoc:
  assumes "run_std cfg (cs @ [c]) s = Some s'"
  obtains t where "run_std cfg cs s = Some t"
    "output_vectors_std cfg (fst c) (fst (snd c)) (fst (snd (snd c))) (snd (snd (snd c))) t = Some s'"
  using assms by (cases c) (auto simp: run_std_append split: option.splits)

lemma output_vectors_std_length:
  assumes "output_vectors_std cfg fi p t mvs s = Some s'"
  shows "length (prev s') = (if fi \<noteq> - 1 \<and> mvs \<noteq> [] then 1 else Suc (length (prev s)))"
  using assms by (auto simp: output_vectors_std_def buffer_step_length split: option.splits)

lemma run_std_length_bound:
  assumes "run_std cfg calls std_init = Some s" "\<forall>c\<in>set calls. call_index c \<noteq> - 1"
  shows "length (prev s) \<le> Suc (length (takeWhile (\<lambda>c. call_vectors c = []) (rev calls)))"
  using assms
proof (induction calls arbitrary: s rule: rev_induct)
  case Nil
  then show ?case by (auto simp: std_init_def)
next
  case (snoc c cs)
  from snoc.prems(1) obtain t where t: "run_std cfg cs std_init = Some t"
    and o: "output_vectors_std cfg (fst c) (fst (snd c)) (fst (snd (snd c))) (snd (snd (snd c))) t = Some s"
    by (rule run_std_snoc)
  have ih: "length (prev t) \<le> Suc (length (takeWhile (\<lambda>c. call_vectors c = []) (rev cs)))"
    using snoc.IH[OF t] snoc.prems(2) by simp
  have i: "fst c \<noteq> - 1" using snoc.prems(2) by (simp add: call_index_def)
  show ?case
    using output_vectors_std_length[OF o] ih i
    by (auto simp: call_vectors_def)
qed

text \<open>
  Claim C4 says that between calls the buffer holds at most 2 grids for every sequence of
  delivered frames, also with arbitrarily many consecutive frames without vectors. Three
  consecutive frames without vectors leave three grids in the buffer.
\<close>

theorem three_empty_frames_buffer_three:
  "map_option (length \<circ> prev)
     (run_std cfg16 [(1, 0, CHR ''P'', []), (2, 1, CHR ''P'', []), (3, 2, CHR ''P'', [])] std_init)
   = Some 3"
  by code_simp

text \<open>
  Claim C4 as amended: after any sequence of frames given to the pipeline, the buffer
  holds at most \<open>1 + k\<close> grids, where \<open>k\<close> is the number of frames without vectors
  since the last frame with vectors. So it holds at most 2 grids (3 with the current
  frame, during a call) as long as no two consecutive frames come without vectors.
\<close>

theorem buffer_length_after_calls:
  assumes "run_std cfg calls std_init = Some s" "\<forall>c\<in>set calls. call_index c \<noteq> - 1"
  shows "length (prev s) \<le> Suc (length (takeWhile (\<lambda>c. call_vectors c = []) (rev calls)))"
  using assms by (rule run_std_length_bound)

theorem buffer_length_after_calls_witness:
  "run_std cfg16 [(1, 0, CHR ''I'', [vec 13 18 16 16]), (2, 1, CHR ''P'', []),
                  (3, 2, CHR ''P'', [])] std_init \<noteq> None \<and>
   length (prev (the (run_std cfg16 [(1, 0, CHR ''I'', [vec 13 18 16 16]), (2, 1, CHR ''P'', []),
                  (3, 2, CHR ''P'', [])] std_init))) \<le> 3"
proof -
  let ?calls = "[(1, 0, CHR ''I'', [vec 13 18 16 16]), (2, 1, CHR ''P'', []),
                 (3, 2, CHR ''P'', [])] :: call list"
  have "run_std cfg16 ?calls std_init \<noteq> None" by code_simp
  then obtain s where s: "run_std cfg16 ?calls std_init = Some s" by blast
  have i: "\<forall>c\<in>set ?calls. call_index c \<noteq> - 1" by (simp add: call_index_def)
  have "length (takeWhile (\<lambda>c. call_vectors c = []) (rev ?calls)) = 2"
    by (simp add: call_vectors_def)
  with buffer_length_after_calls[OF s i] have "length (prev s) \<le> 3" by simp
  with s show ?thesis by simp
qed

section \<open>Interpolation, cell by cell\<close>

lemma interpolate_cell_meta:
  "same_meta this (interpolate_cell p n i j this) \<and>
   Empty (interpolate_cell p n i j this) = Empty this \<and>
   occupancy (interpolate_cell p n i j this) = occupancy this"
  by (simp add: interpolate_cell_def same_meta_def)

lemma fold_interpolate_cell_meta:
  "same_meta this (fold (interpolate_cell p n i) js this) \<and>
   Empty (fold (interpolate_cell p n i) js this) = Empty this \<and>
   occupancy (fold (interpolate_cell p n i) js this) = occupancy this"
proof (induction js arbitrary: this)
  case Nil
  then show ?case by simp
next
  case (Cons j js)
  from Cons.IH[of "interpolate_cell p n i j this"] interpolate_cell_meta[of this p n i j]
  show ?case by (auto intro: same_meta_trans)
qed

lemma fold_interpolate_cell_dx:
  "dx (fold (interpolate_cell p n i) js this) (a, b) =
     (if a = i \<and> b \<in> set js then (dx p (a, b) + dx n (a, b)) sdiv 2 else dx this (a, b))"
  by (induction js arbitrary: this) (auto simp: interpolate_cell_def)

lemma fold_interpolate_cell_dy:
  "dy (fold (interpolate_cell p n i) js this) (a, b) =
     (if a = i \<and> b \<in> set js then (dy p (a, b) + dy n (a, b)) sdiv 2 else dy this (a, b))"
  by (induction js arbitrary: this) (auto simp: interpolate_cell_def)

lemma interpolate_row_meta:
  "same_meta this (interpolate_row p n i this) \<and>
   Empty (interpolate_row p n i this) = Empty this \<and>
   occupancy (interpolate_row p n i this) = occupancy this"
  by (simp add: interpolate_row_def fold_interpolate_cell_meta)

lemma interpolate_row_cells:
  "dx (interpolate_row p n i this) (a, b) =
     (if a = i \<and> b < snd (Shape this) then (dx p (a, b) + dx n (a, b)) sdiv 2
      else dx this (a, b))"
  "dy (interpolate_row p n i this) (a, b) =
     (if a = i \<and> b < snd (Shape this) then (dy p (a, b) + dy n (a, b)) sdiv 2
      else dy this (a, b))"
  by (simp_all add: interpolate_row_def fold_interpolate_cell_dx fold_interpolate_cell_dy)

lemma fold_interpolate_row_meta:
  "same_meta this (fold (interpolate_row p n) is this) \<and>
   Empty (fold (interpolate_row p n) is this) = Empty this \<and>
   occupancy (fold (interpolate_row p n) is this) = occupancy this"
proof (induction "is" arbitrary: this)
  case Nil
  then show ?case by simp
next
  case (Cons i "is")
  from Cons.IH[of "interpolate_row p n i this"] interpolate_row_meta[of this p n i]
  show ?case by (auto intro: same_meta_trans)
qed

lemma fold_interpolate_row_dx:
  "dx (fold (interpolate_row p n) is this) (a, b) =
     (if a \<in> set is \<and> b < snd (Shape this) then (dx p (a, b) + dx n (a, b)) sdiv 2
      else dx this (a, b))"
proof (induction "is" arbitrary: this)
  case Nil
  then show ?case by simp
next
  case (Cons i "is")
  have "Shape (interpolate_row p n i this) = Shape this"
    using interpolate_row_meta[of this p n i] by (simp add: same_meta_def)
  with Cons.IH[of "interpolate_row p n i this"] show ?case
    by (simp add: interpolate_row_cells)
qed

lemma fold_interpolate_row_dy:
  "dy (fold (interpolate_row p n) is this) (a, b) =
     (if a \<in> set is \<and> b < snd (Shape this) then (dy p (a, b) + dy n (a, b)) sdiv 2
      else dy this (a, b))"
proof (induction "is" arbitrary: this)
  case Nil
  then show ?case by simp
next
  case (Cons i "is")
  have "Shape (interpolate_row p n i this) = Shape this"
    using interpolate_row_meta[of this p n i] by (simp add: same_meta_def)
  with Cons.IH[of "interpolate_row p n i this"] show ?case
    by (simp add: interpolate_row_cells)
qed

lemma InterpolateFlow_fields:
  "Shape (InterpolateFlow this p n) = Shape this"
  "GridStep (InterpolateFlow this p n) = GridStep this"
  "Pts (InterpolateFlow this p n) = Pts this"
  "FrameIndex (InterpolateFlow this p n) = FrameIndex this"
  "PictType (InterpolateFlow this p n) = PictType this"
  "Printed (InterpolateFlow this p n) = Printed this"
  "occupancy (InterpolateFlow this p n) = occupancy this"
  "Empty (InterpolateFlow this p n) = False"
  "Origin (InterpolateFlow this p n) = ''interpolated''"
  using fold_interpolate_row_meta[of this p n "[0 ..< fst (Shape this)]"]
  by (simp_all add: InterpolateFlow_def same_meta_def)

lemma InterpolateFlow_cells:
  "dx (InterpolateFlow this p n) (i, j) =
     (if i < fst (Shape this) \<and> j < snd (Shape this)
      then (dx p (i, j) + dx n (i, j)) sdiv 2 else dx this (i, j))"
  "dy (InterpolateFlow this p n) (i, j) =
     (if i < fst (Shape this) \<and> j < snd (Shape this)
      then (dy p (i, j) + dy n (i, j)) sdiv 2 else dy this (i, j))"
  by (simp_all add: InterpolateFlow_def fold_interpolate_row_dx fold_interpolate_row_dy)

section \<open>One call of the pipeline\<close>

lemma output_vectors_std_Some:
  assumes "output_vectors_std cfg fi p t mvs s = Some s'"
  obtains cur where "make_cur cfg fi p t mvs = Some cur"
    "s' = buffer_step (ARG_OUTPUT_OCCUPANCY cfg) fi mvs cur s"
  using assms by (auto simp: output_vectors_std_def split: option.splits)

lemma output_vectors_std_total:
  assumes "0 < fst (shape_of cfg)" "0 < snd (shape_of cfg)"
  shows "\<exists>s'. output_vectors_std cfg fi p t mvs s = Some s'"
  using make_cur_Some[OF assms, of fi p t mvs] by (auto simp: output_vectors_std_def)

lemma run_std_total:
  assumes "0 < fst (shape_of cfg)" "0 < snd (shape_of cfg)"
  shows "\<exists>s'. run_std cfg calls s = Some s'"
proof (induction calls arbitrary: s)
  case Nil
  then show ?case by simp
next
  case (Cons c cs)
  obtain fi p t mvs where c: "c = (fi, p, t, mvs)" by (cases c)
  from output_vectors_std_total[OF assms, of fi p t mvs s] obtain s1
    where "output_vectors_std cfg fi p t mvs s = Some s1" by blast
  with Cons.IH[of s1] c show ?case by simp
qed

lemma PrintIfNotPrinted_fst:
  "fst (PrintIfNotPrinted occ f e) = f\<lparr>Printed := True\<rparr>"
  by (simp add: PrintIfNotPrinted_def Let_def)

text \<open>The three paths of the second half of \<^verbatim>\<open>output_vectors_std\<close>.\<close>

lemma buffer_step_flush:
  "buffer_step occ (- 1) mvs cur s =
     \<lparr>prev = fst (print_all occ (prev s) (em s)) @ [cur],
      em = snd (print_all occ (prev s) (em s))\<rparr>"
  by (simp add: buffer_step_def case_prod_beta)

lemma buffer_step_vectors:
  assumes "fi \<noteq> - 1" "mvs \<noteq> []"
  shows "prev (buffer_step occ fi mvs cur s) = [cur\<lparr>Printed := True\<rparr>]"
  using assms by (simp add: buffer_step_def Let_def case_prod_beta PrintIfNotPrinted_fst)

lemma buffer_step_no_vectors:
  "fi \<noteq> - 1 \<Longrightarrow> buffer_step occ fi [] cur s = \<lparr>prev = prev s @ [cur], em = em s\<rparr>"
  by (simp add: buffer_step_def)

lemma buffer_step_case_A:
  assumes "fi \<noteq> - 1" "mvs \<noteq> []" "prev s = [p0, p1]" "\<not> Empty p0"
  shows "buffer_step occ fi mvs cur s =
     \<lparr>prev = [fst (PrintIfNotPrinted occ cur
                     (snd (PrintIfNotPrinted occ (InterpolateFlow p1 p0 cur) (em s))))],
      em = snd (PrintIfNotPrinted occ cur
                  (snd (PrintIfNotPrinted occ (InterpolateFlow p1 p0 cur) (em s))))\<rparr>"
  using assms by (simp add: buffer_step_def Let_def case_prod_beta)

lemma buffer_step_case_B:
  assumes "fi \<noteq> - 1" "mvs \<noteq> []" "\<not> (length (prev s) = 2 \<and> \<not> Empty (hd (prev s)))"
  shows "buffer_step occ fi mvs cur s =
     \<lparr>prev = [fst (PrintIfNotPrinted occ cur (snd (print_all occ (prev s) (em s))))],
      em = snd (PrintIfNotPrinted occ cur (snd (print_all occ (prev s) (em s))))\<rparr>"
  using assms by (auto simp: buffer_step_def Let_def case_prod_beta)

section \<open>The buffer between calls\<close>

lemma buffer_inv_init: "buffer_inv std_init"
  by (simp add: buffer_inv_def std_init_def)

lemma buffer_step_inv:
  assumes "buffer_inv s" "fi \<noteq> - 1" "\<not> Printed cur" "Empty cur \<longleftrightarrow> mvs = []"
  shows "buffer_inv (buffer_step occ fi mvs cur s)"
proof (cases "mvs = []")
  case True
  have "tl (prev s @ [cur]) = (if prev s = [] then [] else tl (prev s) @ [cur])"
    by (cases "prev s") simp_all
  with assms True show ?thesis
    by (auto simp: buffer_step_no_vectors buffer_inv_def)
next
  case False
  have "prev (buffer_step occ fi mvs cur s) = [cur\<lparr>Printed := True\<rparr>]"
    using assms(2) False by (rule buffer_step_vectors)
  with assms False show ?thesis by (simp add: buffer_inv_def)
qed

lemma b_frame_index_new:
  assumes "map unstamped new = map (\<lambda>f. unstamped (render occ 0 f)) fs"
  shows "map b_frame_index new = map FrameIndex fs"
proof -
  have "map b_frame_index new = map b_frame_index (map unstamped new)"
    by (simp add: unstamped_def)
  also have "\<dots> = map FrameIndex fs"
    by (simp add: assms unstamped_def render_def)
  finally show ?thesis .
qed

lemma print_all_indices:
  "map b_frame_index (out (snd (print_all occ fs e))) =
     map b_frame_index (out e) @ map FrameIndex (filter (\<lambda>f. \<not> Printed f) fs)"
  using print_all_out[of occ fs e] b_frame_index_new by fastforce

lemma buffer_step_indices:
  assumes "buffer_inv s" "fi \<noteq> - 1" "\<not> Printed cur" "FrameIndex cur = fi"
  shows "map b_frame_index (out (em (buffer_step occ fi mvs cur s))) @
           map FrameIndex (filter (\<lambda>f. \<not> Printed f) (prev (buffer_step occ fi mvs cur s))) =
         map b_frame_index (out (em s)) @
           map FrameIndex (filter (\<lambda>f. \<not> Printed f) (prev s)) @ [fi]"
proof (cases "mvs = []")
  case True
  with assms show ?thesis by (simp add: buffer_step_no_vectors)
next
  case False
  show ?thesis
  proof (cases "length (prev s) = 2 \<and> \<not> Empty (hd (prev s))")
    case True
    then obtain p0 p1 where p: "prev s = [p0, p1]" "\<not> Empty p0"
      by (cases "prev s"; cases "tl (prev s)") auto
    then have "Printed p0" using assms(1) by (simp add: buffer_inv_def)
    then show ?thesis
      using assms False p
      by (simp add: buffer_step_case_A PrintIfNotPrinted_out PrintIfNotPrinted_fst
          InterpolateFlow_fields render_def)
  next
    case B: False
    show ?thesis
      using assms False
      by (simp add: buffer_step_case_B[OF assms(2) False B] PrintIfNotPrinted_out
          PrintIfNotPrinted_fst print_all_indices render_def)
  qed
qed

lemma run_std_invariant:
  assumes "run_std cfg calls std_init = Some s" "\<forall>c\<in>set calls. call_index c \<noteq> - 1"
  shows "buffer_inv s \<and>
         map b_frame_index (out (em s)) @ map FrameIndex (filter (\<lambda>f. \<not> Printed f) (prev s))
           = map call_index calls"
  using assms
proof (induction calls arbitrary: s rule: rev_induct)
  case Nil
  then show ?case by (auto simp: std_init_def buffer_inv_def)
next
  case (snoc c cs)
  from snoc.prems(1) obtain t where t: "run_std cfg cs std_init = Some t"
    and o: "output_vectors_std cfg (fst c) (fst (snd c)) (fst (snd (snd c))) (snd (snd (snd c))) t = Some s"
    by (rule run_std_snoc)
  from o obtain cur where
    cur: "make_cur cfg (fst c) (fst (snd c)) (fst (snd (snd c))) (snd (snd (snd c))) = Some cur"
    and s: "s = buffer_step (ARG_OUTPUT_OCCUPANCY cfg) (fst c) (snd (snd (snd c))) cur t"
    by (rule output_vectors_std_Some)
  have ih: "buffer_inv t"
    "map b_frame_index (out (em t)) @ map FrameIndex (filter (\<lambda>f. \<not> Printed f) (prev t))
           = map call_index cs"
    using snoc.IH[OF t] snoc.prems(2) by simp_all
  have i: "fst c \<noteq> - 1" using snoc.prems(2) by (simp add: call_index_def)
  note m = make_cur_meta[OF cur]
  have "buffer_inv s"
    unfolding s by (rule buffer_step_inv[OF ih(1) i m(7) m(8)])
  moreover have "map b_frame_index (out (em s)) @ map FrameIndex (filter (\<lambda>f. \<not> Printed f) (prev s))
           = map call_index (cs @ [c])"
    unfolding s using buffer_step_indices[OF ih(1) i m(7) m(3)] ih(2)
    by (simp add: call_index_def)
  ultimately show ?case by simp
qed

lemma buffer_step_shapes:
  assumes "\<forall>f\<in>set (prev s). Shape f = sh" "Shape cur = sh"
  shows "\<forall>f\<in>set (prev (buffer_step occ fi mvs cur s)). Shape f = sh"
proof -
  have "\<forall>f\<in>set (fst (print_all occ fs e)). Shape f = sh" if "\<forall>f\<in>set fs. Shape f = sh" for fs e
    using that by (induction fs arbitrary: e)
      (simp_all add: print_all_Cons PrintIfNotPrinted_fst del: print_all.simps(2))
  from this[of "prev s" "em s"] assms show ?thesis
    by (cases "fi = - 1"; cases "mvs = []")
      (auto simp: buffer_step_flush buffer_step_no_vectors buffer_step_vectors)
qed

lemma run_std_shapes:
  assumes "run_std cfg calls s0 = Some s" "\<forall>f\<in>set (prev s0). Shape f = shape_of cfg"
  shows "\<forall>f\<in>set (prev s). Shape f = shape_of cfg"
  using assms
proof (induction calls arbitrary: s0)
  case Nil
  then show ?case by simp
next
  case (Cons c cs)
  obtain fi p t mvs where c: "c = (fi, p, t, mvs)" by (cases c)
  with Cons.prems(1) obtain s1 where s1: "output_vectors_std cfg fi p t mvs s0 = Some s1"
    and r: "run_std cfg cs s1 = Some s" by (auto split: option.splits)
  from s1 obtain cur where cur: "make_cur cfg fi p t mvs = Some cur"
    and e: "s1 = buffer_step (ARG_OUTPUT_OCCUPANCY cfg) fi mvs cur s0"
    by (rule output_vectors_std_Some)
  have "\<forall>f\<in>set (prev s1). Shape f = shape_of cfg"
    unfolding e by (rule buffer_step_shapes[OF Cons.prems(2) make_cur_meta(1)[OF cur]])
  from Cons.IH[OF r this] show ?case .
qed

text \<open>
  Claim C1: when a frame with a non-empty vector list arrives, the buffer has length
  exactly 2 and its first grid is non-empty, the pipeline overwrites every cell of the
  second grid with the truncating mean of the aligned cells of the first grid and the
  current frame, leaves its occupancy array as it is, sets its \<open>Empty\<close> to false and its
  origin to "interpolated", and emits it before the current frame. Here \<open>s\<close> is any state
  the pipeline reaches on frames of a stream whose grids have at least one row and one
  column; the two new blocks are the interpolated grid, then the current frame, each
  with its timestamp relative to the emitter's baseline.
\<close>

theorem interpolated_middle_frame:
  assumes "run_std cfg calls std_init = Some s" "\<forall>c\<in>set calls. call_index c \<noteq> - 1"
    and "0 < fst (shape_of cfg)" "0 < snd (shape_of cfg)"
    and "prev s = [p0, p1]" "\<not> Empty p0"
    and "mvs \<noteq> []" "fi \<noteq> - 1"
  shows "\<exists>cur s'. make_cur cfg fi p t mvs = Some cur \<and>
           output_vectors_std cfg fi p t mvs s = Some s' \<and>
           Shape p1 = shape_of cfg \<and>
           (\<forall>i < fst (shape_of cfg). \<forall>j < snd (shape_of cfg).
              dx (InterpolateFlow p1 p0 cur) (i, j) = (dx p0 (i, j) + dx cur (i, j)) sdiv 2 \<and>
              dy (InterpolateFlow p1 p0 cur) (i, j) = (dy p0 (i, j) + dy cur (i, j)) sdiv 2) \<and>
           occupancy (InterpolateFlow p1 p0 cur) = occupancy p1 \<and>
           Empty (InterpolateFlow p1 p0 cur) = False \<and>
           Origin (InterpolateFlow p1 p0 cur) = ''interpolated'' \<and>
           out (em s') = out (em s) @
             [render (ARG_OUTPUT_OCCUPANCY cfg)
                (if FirstPts (em s) = - 1 then Pts p1 else FirstPts (em s))
                (InterpolateFlow p1 p0 cur),
              render (ARG_OUTPUT_OCCUPANCY cfg)
                (if (if FirstPts (em s) = - 1 then Pts p1 else FirstPts (em s)) = - 1
                 then p else (if FirstPts (em s) = - 1 then Pts p1 else FirstPts (em s)))
                cur]"
proof -
  from make_cur_Some[OF assms(3,4)] obtain cur where cur: "make_cur cfg fi p t mvs = Some cur"
    by blast
  note m = make_cur_meta[OF cur]
  let ?occ = "ARG_OUTPUT_OCCUPANCY cfg"
  let ?s' = "buffer_step ?occ fi mvs cur s"
  have o: "output_vectors_std cfg fi p t mvs s = Some ?s'"
    by (simp add: output_vectors_std_def cur)
  have inv: "buffer_inv s" using run_std_invariant[OF assms(1,2)] by simp
  then have p1: "\<not> Printed p1" using assms(5) by (auto simp: buffer_inv_def)
  have sh: "Shape p1 = shape_of cfg"
    using run_std_shapes[OF assms(1)] assms(5) by (simp add: std_init_def)
  have "out (em ?s') = out (em s) @
             [render ?occ (if FirstPts (em s) = - 1 then Pts p1 else FirstPts (em s))
                (InterpolateFlow p1 p0 cur),
              render ?occ
                (if (if FirstPts (em s) = - 1 then Pts p1 else FirstPts (em s)) = - 1
                 then p else (if FirstPts (em s) = - 1 then Pts p1 else FirstPts (em s)))
                cur]"
    using p1 m(4,7)
    by (simp add: buffer_step_case_A[OF assms(8,7,5,6)] PrintIfNotPrinted_out
        InterpolateFlow_fields PrintIfNotPrinted_def Let_def)
  with cur o sh show ?thesis
    by (simp add: InterpolateFlow_fields InterpolateFlow_cells)
qed


theorem interpolated_middle_frame_witness:
  "(\<exists>s'. output_vectors_std cfg16 3 12 (CHR ''P'') [vec 12 21 16 16]
            (the (run_std cfg16 [(1, 10, CHR ''I'', [vec 13 18 16 16]), (2, 11, CHR ''P'', [])]
                    std_init)) = Some s' \<and>
          map b_origin (out (em s')) = [''video'', ''interpolated'', ''video'']) \<and>
   map_option (\<lambda>s'. (map b_frame_index (out (em s')), map b_pts (out (em s')),
                        b_dx (out (em s') ! 1), b_dy (out (em s') ! 1),
                        b_occupancy (out (em s') ! 1)))
     (output_vectors_std cfg16 3 12 (CHR ''P'') [vec 12 21 16 16]
        (the (run_std cfg16 [(1, 10, CHR ''I'', [vec 13 18 16 16]), (2, 11, CHR ''P'', [])]
                std_init)))
   = Some ([1, 2, 3], [0, 1, 2],
           [[0, 0, 0, 0], [0, 3, 0, 0], [0, 0, 0, 0], [0, 0, 0, 0]],
           [[0, 0, 0, 0], [0, - 3, 0, 0], [0, 0, 0, 0], [0, 0, 0, 0]],
           [[0, 0, 0, 0], [0, 0, 0, 0], [0, 0, 0, 0], [0, 0, 0, 0]])"
proof -
  let ?calls = "[(1, 10, CHR ''I'', [vec 13 18 16 16]), (2, 11, CHR ''P'', [])] :: call list"
  define s0 where "s0 = the (run_std cfg16 ?calls std_init)"
  have "run_std cfg16 ?calls std_init \<noteq> None" by code_simp
  then have r: "run_std cfg16 ?calls std_init = Some s0" by (auto simp: s0_def)
  have i: "\<forall>c\<in>set ?calls. call_index c \<noteq> - 1" by (simp add: call_index_def)
  have sh: "0 < fst (shape_of cfg16)" "0 < snd (shape_of cfg16)" by code_simp+
  have "length (prev s0) = 2" unfolding s0_def by code_simp
  then have p: "prev s0 = [hd (prev s0), last (prev s0)]"
    by (cases "prev s0"; cases "tl (prev s0)") auto
  have e: "\<not> Empty (hd (prev s0))" unfolding s0_def by code_simp
  have o0: "map b_origin (out (em s0)) = [''video'']" unfolding s0_def by code_simp
  have nv: "[vec 12 21 16 16] \<noteq> []" and ni: "(3 :: int) \<noteq> - 1" by simp_all
  from interpolated_middle_frame[OF r i sh p e nv ni, of 12 "CHR ''P''"]
  obtain cur s' where H: "make_cur cfg16 3 12 (CHR ''P'') [vec 12 21 16 16] = Some cur \<and>
           output_vectors_std cfg16 3 12 (CHR ''P'') [vec 12 21 16 16] s0 = Some s' \<and>
           Shape (last (prev s0)) = shape_of cfg16 \<and>
           (\<forall>i < fst (shape_of cfg16). \<forall>j < snd (shape_of cfg16).
              dx (InterpolateFlow (last (prev s0)) (hd (prev s0)) cur) (i, j) =
                (dx (hd (prev s0)) (i, j) + dx cur (i, j)) sdiv 2 \<and>
              dy (InterpolateFlow (last (prev s0)) (hd (prev s0)) cur) (i, j) =
                (dy (hd (prev s0)) (i, j) + dy cur (i, j)) sdiv 2) \<and>
           occupancy (InterpolateFlow (last (prev s0)) (hd (prev s0)) cur) =
             occupancy (last (prev s0)) \<and>
           Empty (InterpolateFlow (last (prev s0)) (hd (prev s0)) cur) = False \<and>
           Origin (InterpolateFlow (last (prev s0)) (hd (prev s0)) cur) = ''interpolated'' \<and>
           out (em s') = out (em s0) @
             [render (ARG_OUTPUT_OCCUPANCY cfg16)
                (if FirstPts (em s0) = - 1 then Pts (last (prev s0)) else FirstPts (em s0))
                (InterpolateFlow (last (prev s0)) (hd (prev s0)) cur),
              render (ARG_OUTPUT_OCCUPANCY cfg16)
                (if (if FirstPts (em s0) = - 1 then Pts (last (prev s0)) else FirstPts (em s0)) = - 1
                 then 12 else (if FirstPts (em s0) = - 1 then Pts (last (prev s0)) else FirstPts (em s0)))
                cur]"
    by (elim exE)
  have cur: "make_cur cfg16 3 12 (CHR ''P'') [vec 12 21 16 16] = Some cur"
    and o: "output_vectors_std cfg16 3 12 (CHR ''P'') [vec 12 21 16 16] s0 = Some s'"
    using H by (rule conjunct1, rule conjunct2[THEN conjunct1])
  have m: "Origin (InterpolateFlow (last (prev s0)) (hd (prev s0)) cur) = ''interpolated''"
    using H by (elim conjE)
  have out: "map b_origin (out (em s')) = map b_origin (out (em s0)) @
      [Origin (InterpolateFlow (last (prev s0)) (hd (prev s0)) cur), Origin cur]"
  proof -
    from H have "out (em s') = out (em s0) @
             [render (ARG_OUTPUT_OCCUPANCY cfg16)
                (if FirstPts (em s0) = - 1 then Pts (last (prev s0)) else FirstPts (em s0))
                (InterpolateFlow (last (prev s0)) (hd (prev s0)) cur),
              render (ARG_OUTPUT_OCCUPANCY cfg16)
                (if (if FirstPts (em s0) = - 1 then Pts (last (prev s0)) else FirstPts (em s0)) = - 1
                 then 12 else (if FirstPts (em s0) = - 1 then Pts (last (prev s0)) else FirstPts (em s0)))
                cur]"
      by (elim conjE)
    then show ?thesis by (simp only: map_append list.map render_def block.simps)
  qed
  have "map b_origin (out (em s')) = [''video'', ''interpolated'', ''video'']"
    by (simp only: out o0 m make_cur_meta(6)[OF cur] append.simps)
  with o have A: "\<exists>s'. output_vectors_std cfg16 3 12 (CHR ''P'') [vec 12 21 16 16] s0 = Some s' \<and>
          map b_origin (out (em s')) = [''video'', ''interpolated'', ''video'']"
    by (intro exI[of _ s'] conjI)
  have B: "map_option (\<lambda>s'. (map b_frame_index (out (em s')), map b_pts (out (em s')),
                        b_dx (out (em s') ! 1), b_dy (out (em s') ! 1),
                        b_occupancy (out (em s') ! 1)))
     (output_vectors_std cfg16 3 12 (CHR ''P'') [vec 12 21 16 16]
        (the (run_std cfg16 ?calls std_init)))
   = Some ([1, 2, 3], [0, 1, 2],
           [[0, 0, 0, 0], [0, 3, 0, 0], [0, 0, 0, 0], [0, 0, 0, 0]],
           [[0, 0, 0, 0], [0, - 3, 0, 0], [0, 0, 0, 0], [0, 0, 0, 0]],
           [[0, 0, 0, 0], [0, 0, 0, 0], [0, 0, 0, 0], [0, 0, 0, 0]])"
    by code_simp
  from A B show ?thesis unfolding s0_def by (rule conjI)
qed

section \<open>The flush call\<close>

lemma flush_effect:
  assumes "output_vectors_std cfg (- 1) p t mvs s = Some s'"
  shows "\<exists>new. out (em s') = out (em s) @ new \<and>
           map unstamped new =
             map (\<lambda>f. unstamped (render (ARG_OUTPUT_OCCUPANCY cfg) 0 f))
               (filter (\<lambda>f. \<not> Printed f) (prev s))"
    and "\<forall>f\<in>set (butlast (prev s')). Printed f"
    and "length (prev s') = Suc (length (prev s))"
proof -
  from assms obtain cur where s': "s' = buffer_step (ARG_OUTPUT_OCCUPANCY cfg) (- 1) mvs cur s"
    by (rule output_vectors_std_Some)
  show "\<exists>new. out (em s') = out (em s) @ new \<and>
           map unstamped new =
             map (\<lambda>f. unstamped (render (ARG_OUTPUT_OCCUPANCY cfg) 0 f))
               (filter (\<lambda>f. \<not> Printed f) (prev s))"
    unfolding s' using print_all_out[of "ARG_OUTPUT_OCCUPANCY cfg" "prev s" "em s"]
    by (simp add: buffer_step_flush)
  show "\<forall>f\<in>set (butlast (prev s')). Printed f"
    unfolding s' using print_all_printed[of _ "ARG_OUTPUT_OCCUPANCY cfg" "prev s" "em s"]
    by (simp add: buffer_step_flush)
  show "length (prev s') = Suc (length (prev s))"
    unfolding s' by (simp add: buffer_step_flush print_all_length)
qed

section \<open>The decode loop and the two exits of \<^verbatim>\<open>main\<close>\<close>

lemma frameCallback_total:
  assumes "0 < fst (shape_of cfg)" "0 < snd (shape_of cfg)"
  shows "\<exists>m'. frameCallback cfg newPts newPictType m = Some m'"
proof -
  from output_vectors_std_total[OF assms] obtain s where
    "output_vectors_std cfg (m_frameIndex m + 1) newPts newPictType (m_motionVectors m)
       (arranged m) = Some s" by blast
  then show ?thesis by (simp add: frameCallback_def Let_def)
qed

lemma for_each_frame_total:
  assumes "0 < fst (shape_of cfg)" "0 < snd (shape_of cfg)"
  shows "\<exists>m'. for_each_frame cfg ds m = Some m'"
proof (induction ds arbitrary: m)
  case Nil
  then show ?case by simp
next
  case (Cons d ds)
  obtain newPts newPictType mvs where d: "d = (newPts, newPictType, mvs)" by (cases d)
  from frameCallback_total[OF assms] obtain m1 where
    "frameCallback cfg newPts newPictType (m\<lparr>m_motionVectors := mvs\<rparr>) = Some m1" by blast
  with Cons.IH[of m1] d show ?case by simp
qed

text \<open>
  Claim C9: on a clean end of stream in arranged mode the flush entry (frame index -1)
  emits every grid that remains in the buffer, in buffer order, so that a last frame that
  came without vectors is still emitted; on a decode error in mid-stream (a negative
  return code other than the end-of-stream code) the process writes the error to
  standard error and exits with code 1 without flushing. Here \<open>m\<close> is the state when
  the decode loop returns. In the first case the exit code is 0 and standard output grows
  by one block for each unprinted grid of the buffer, in order, each showing the grid as
  it stands (up to its timestamp, which is relative to the baseline), and no grid of a
  frame stays unprinted; in the second case the state is that of the decode loop with
  the error line added, so standard output and the buffer are as the loop left them.
\<close>

theorem flush_on_end_of_stream_only:
  assumes "0 < fst (shape_of cfg)" "0 < snd (shape_of cfg)"
    and "\<not> ARG_OUTPUT_RAW_MOTION_VECTORS cfg"
  shows "\<exists>m. for_each_frame cfg ds (main_init pts0 pictType0) = Some m \<and>
          (if ret < 0 \<and> ret \<noteq> AVERROR_EOF
           then main cfg AVERROR_EOF pts0 pictType0 ds ret
                  = Some (1, m\<lparr>err := err m @ [ErrorOccurred ret]\<rparr>)
           else (\<exists>s' new.
                  output_vectors_std cfg (- 1) (m_pts m) (m_pictType m) (m_motionVectors m)
                    (arranged m) = Some s' \<and>
                  main cfg AVERROR_EOF pts0 pictType0 ds ret = Some (0, m\<lparr>arranged := s'\<rparr>) \<and>
                  out (em s') = out (em (arranged m)) @ new \<and>
                  map unstamped new =
                    map (\<lambda>f. unstamped (render (ARG_OUTPUT_OCCUPANCY cfg) 0 f))
                      (filter (\<lambda>f. \<not> Printed f) (prev (arranged m))) \<and>
                  (\<forall>f\<in>set (butlast (prev s')). Printed f)))"
proof -
  from for_each_frame_total[OF assms(1,2)] obtain m
    where m: "for_each_frame cfg ds (main_init pts0 pictType0) = Some m" by blast
  show ?thesis
  proof (cases "ret < 0 \<and> ret \<noteq> AVERROR_EOF")
    case True
    with m show ?thesis by (simp add: main_def)
  next
    case False
    from output_vectors_std_total[OF assms(1,2)] obtain s' where
      s': "output_vectors_std cfg (- 1) (m_pts m) (m_pictType m) (m_motionVectors m)
             (arranged m) = Some s'" by blast
    from flush_effect(1)[OF s'] obtain new where
      n: "out (em s') = out (em (arranged m)) @ new"
       "map unstamped new =
             map (\<lambda>f. unstamped (render (ARG_OUTPUT_OCCUPANCY cfg) 0 f))
               (filter (\<lambda>f. \<not> Printed f) (prev (arranged m)))"
      by blast
    have "main cfg AVERROR_EOF pts0 pictType0 ds ret = Some (0, m\<lparr>arranged := s'\<rparr>)"
      using m s' False assms(3) by (simp add: main_def)
    with m s' n flush_effect(2)[OF s'] False show ?thesis by auto
  qed
qed

theorem flush_on_end_of_stream_only_witness:
  "map_option (\<lambda>r. (fst r, map b_frame_index (out (em (arranged (snd r)))), err (snd r)))
     (main cfg16 (- 541478725) 0 (CHR ''?'')
        [(10, CHR ''I'', [vec 13 18 16 16]), (11, CHR ''P'', [])] (- 541478725))
     = Some (0, [1, 2], []) \<and>
   map_option (\<lambda>r. (fst r, map b_frame_index (out (em (arranged (snd r)))), err (snd r)))
     (main cfg16 (- 541478725) 0 (CHR ''?'')
        [(10, CHR ''I'', [vec 13 18 16 16]), (11, CHR ''P'', [])] (- 5))
     = Some (1, [1], [ErrorOccurred (- 5)])"
proof -
  let ?ds = "[(10, CHR ''I'', [vec 13 18 16 16]), (11, CHR ''P'', [])] :: delivery list"
  have sh: "0 < fst (shape_of cfg16)" "0 < snd (shape_of cfg16)" by code_simp+
  have raw: "\<not> ARG_OUTPUT_RAW_MOTION_VECTORS cfg16" by (simp add: cfg16_def)
  from flush_on_end_of_stream_only[OF sh raw, of ?ds 0 "CHR ''?''" "- 5" "- 541478725"]
  obtain m where m: "for_each_frame cfg16 ?ds (main_init 0 (CHR ''?'')) = Some m"
    and e: "main cfg16 (- 541478725) 0 (CHR ''?'') ?ds (- 5)
              = Some (1, m\<lparr>err := err m @ [ErrorOccurred (- 5)]\<rparr>)"
    by auto
  have "map_option (\<lambda>m. (map b_frame_index (out (em (arranged m))), err m))
          (for_each_frame cfg16 ?ds (main_init 0 (CHR ''?''))) = Some ([1], [])"
    by code_simp
  with m have "map b_frame_index (out (em (arranged m))) = [1]" "err m = []" by simp_all
  with e have B: "map_option (\<lambda>r. (fst r, map b_frame_index (out (em (arranged (snd r)))), err (snd r)))
     (main cfg16 (- 541478725) 0 (CHR ''?'') ?ds (- 5))
     = Some (1, [1], [ErrorOccurred (- 5)])" by simp
  have A: "map_option (\<lambda>r. (fst r, map b_frame_index (out (em (arranged (snd r)))), err (snd r)))
     (main cfg16 (- 541478725) 0 (CHR ''?'') ?ds (- 541478725))
     = Some (0, [1, 2], [])" by code_simp
  from A B show ?thesis by (rule conjI)
qed

section \<open>What a sweep of the neighbour fill changes\<close>

lemma fill_cell_other:
  assumes "c \<noteq> (i, j)"
  shows "cell (fill_cell i j f) c = cell f c"
  using assms by (simp add: fill_cell_def cell_def)

lemma fill_cell_occupied:
  assumes "occupancy f c \<noteq> 0"
  shows "cell (fill_cell i j f) c = cell f c"
  using assms by (cases "c = (i, j)") (auto simp: fill_cell_def cell_def)

lemma fold_fill_cell_other:
  assumes "fst c \<noteq> i \<or> snd c \<notin> set js"
  shows "cell (fold (fill_cell i) js f) c = cell f c"
  using assms
proof (induction js arbitrary: f)
  case Nil
  then show ?case by simp
next
  case (Cons j js)
  have "c \<noteq> (i, j)" using Cons.prems by auto
  with Cons show ?case by (auto simp: fill_cell_other)
qed

lemma fold_fill_cell_occupied:
  assumes "occupancy f c \<noteq> 0"
  shows "cell (fold (fill_cell i) js f) c = cell f c"
  using assms
proof (induction js arbitrary: f)
  case Nil
  then show ?case by simp
next
  case (Cons j js)
  have c: "cell (fill_cell i j f) c = cell f c" using Cons.prems by (rule fill_cell_occupied)
  then have "occupancy (fill_cell i j f) c \<noteq> 0" using Cons.prems by (simp add: cell_def)
  from Cons.IH[OF this] c show ?case by simp
qed

lemma fill_row_other:
  assumes "fst c \<noteq> i \<or> snd c < 1 \<or> snd (Shape f) - 1 \<le> snd c"
  shows "cell (fill_row i f) c = cell f c"
  unfolding fill_row_def using assms by (intro fold_fill_cell_other) auto

lemma fill_row_occupied:
  "occupancy f c \<noteq> 0 \<Longrightarrow> cell (fill_row i f) c = cell f c"
  unfolding fill_row_def by (rule fold_fill_cell_occupied)

lemma fold_fill_row_other:
  assumes "fst c \<notin> set is \<or> snd c < 1 \<or> snd (Shape f) - 1 \<le> snd c"
  shows "cell (fold fill_row is f) c = cell f c"
  using assms
proof (induction "is" arbitrary: f)
  case Nil
  then show ?case by simp
next
  case (Cons i "is")
  have s: "Shape (fill_row i f) = Shape f"
    using fill_row_meta[of f i] by (simp add: same_meta_def)
  have "cell (fill_row i f) c = cell f c"
    using Cons.prems by (intro fill_row_other) auto
  moreover have "cell (fold fill_row is (fill_row i f)) c = cell (fill_row i f) c"
    using Cons.prems s by (intro Cons.IH) auto
  ultimately show ?case by simp
qed

lemma fold_fill_row_occupied:
  assumes "occupancy f c \<noteq> 0"
  shows "cell (fold fill_row is f) c = cell f c"
  using assms
proof (induction "is" arbitrary: f)
  case Nil
  then show ?case by simp
next
  case (Cons i "is")
  have c: "cell (fill_row i f) c = cell f c" using Cons.prems by (rule fill_row_occupied)
  then have "occupancy (fill_row i f) c \<noteq> 0" using Cons.prems by (simp add: cell_def)
  from Cons.IH[OF this] c show ?case by simp
qed

lemma fill_sweep_other:
  assumes "\<not> interior (Shape f) c"
  shows "cell (fill_sweep f) c = cell f c"
  unfolding fill_sweep_def using assms
  by (intro fold_fill_row_other) (auto simp: interior_def)

lemma fill_sweep_occupied:
  "occupancy f c \<noteq> 0 \<Longrightarrow> cell (fill_sweep f) c = cell f c"
  unfolding fill_sweep_def by (rule fold_fill_row_occupied)

section \<open>A sweep, cell by cell\<close>

lemma upt_split:
  assumes "a \<le> i" "i < n"
  shows "[a ..< n] = [a ..< i] @ i # [Suc i ..< n]"
proof -
  have "[a ..< i + (n - i)] = [a ..< i] @ [i ..< i + (n - i)]"
    using assms(1) by (rule upt_add_eq_append)
  moreover have "i + (n - i) = n" using assms(2) by simp
  moreover have "[i ..< n] = i # [Suc i ..< n]" using assms(2) by (rule upt_conv_Cons)
  ultimately show ?thesis by simp
qed

lemma cell_occupancy: "cell a c = cell b d \<Longrightarrow> occupancy a c = occupancy b d"
  by (simp add: cell_def)

lemma fill_cell_at:
  "cell (fill_cell i j h) (i, j) =
     (if occupancy h (i, j) = 0 then
        if occupancy h (i, j - 1) \<noteq> 0 \<and> occupancy h (i, j + 1) \<noteq> 0
        then mean_cell (cell h (i, j - 1)) (cell h (i, j + 1))
        else if occupancy h (i - 1, j) \<noteq> 0 \<and> occupancy h (i + 1, j) \<noteq> 0
        then mean_cell (cell h (i - 1, j)) (cell h (i + 1, j))
        else cell h (i, j)
      else cell h (i, j))"
  by (simp add: fill_cell_def cell_def mean_cell_def)

text \<open>
  One row of a sweep: the cell (i, j) is computed from its left neighbour as the row
  sweep leaves it and from the three other neighbours as they were.
\<close>

lemma fill_row_at:
  assumes "1 \<le> j" "j + 2 \<le> snd (Shape F)" "1 \<le> i"
  shows "cell (fill_row i F) (i, j) =
     (if occupancy F (i, j) = 0 then
        if occupancy (fill_row i F) (i, j - 1) \<noteq> 0 \<and> occupancy F (i, j + 1) \<noteq> 0
        then mean_cell (cell (fill_row i F) (i, j - 1)) (cell F (i, j + 1))
        else if occupancy F (i - 1, j) \<noteq> 0 \<and> occupancy F (i + 1, j) \<noteq> 0
        then mean_cell (cell F (i - 1, j)) (cell F (i + 1, j))
        else cell F (i, j)
      else cell F (i, j))"
proof -
  let ?n = "snd (Shape F) - 1"
  define H where "H = fold (fill_cell i) [1 ..< j] F"
  define H' where "H' = fill_cell i j H"
  have split: "[1 ..< ?n] = [1 ..< j] @ j # [Suc j ..< ?n]"
    using assms(1,2) by (intro upt_split) auto
  have R: "fill_row i F = fold (fill_cell i) [Suc j ..< ?n] H'"
    unfolding fill_row_def H_def H'_def by (simp only: split fold_append fold.simps comp_apply)
  have after: "cell (fill_row i F) (i, b) = cell H' (i, b)" if "b \<le> j" for b
    unfolding R using that by (intro fold_fill_cell_other) auto
  have before: "cell H (a, b) = cell F (a, b)" if "a \<noteq> i \<or> j \<le> b" for a b
    unfolding H_def using that by (intro fold_fill_cell_other) auto
  have left: "cell (fill_row i F) (i, j - 1) = cell H (i, j - 1)"
  proof -
    have "cell (fill_row i F) (i, j - 1) = cell H' (i, j - 1)" by (rule after) simp
    also have "\<dots> = cell H (i, j - 1)"
      unfolding H'_def using assms(1) by (intro fill_cell_other) auto
    finally show ?thesis .
  qed
  have here: "cell H (i, j) = cell F (i, j)" by (rule before) simp
  have right: "cell H (i, j + 1) = cell F (i, j + 1)" by (rule before) simp
  have up: "cell H (i - 1, j) = cell F (i - 1, j)" using assms(3) by (intro before) auto
  have down: "cell H (i + 1, j) = cell F (i + 1, j)" by (rule before) simp
  have "cell (fill_row i F) (i, j) = cell H' (i, j)" by (rule after) simp
  also have "\<dots> =
     (if occupancy H (i, j) = 0 then
        if occupancy H (i, j - 1) \<noteq> 0 \<and> occupancy H (i, j + 1) \<noteq> 0
        then mean_cell (cell H (i, j - 1)) (cell H (i, j + 1))
        else if occupancy H (i - 1, j) \<noteq> 0 \<and> occupancy H (i + 1, j) \<noteq> 0
        then mean_cell (cell H (i - 1, j)) (cell H (i + 1, j))
        else cell H (i, j)
      else cell H (i, j))"
    unfolding H'_def by (rule fill_cell_at)
  finally show ?thesis
    by (simp only: left[symmetric] here right up down
        cell_occupancy[OF left[symmetric]] cell_occupancy[OF here] cell_occupancy[OF right]
        cell_occupancy[OF up] cell_occupancy[OF down])
qed

lemma fill_sweep_at:
  assumes "interior (Shape f) (i, j)"
  shows "cell (fill_sweep f) (i, j) =
     (if occupancy f (i, j) = 0 then
        if occupancy (fill_sweep f) (i, j - 1) \<noteq> 0 \<and> occupancy f (i, j + 1) \<noteq> 0
        then mean_cell (cell (fill_sweep f) (i, j - 1)) (cell f (i, j + 1))
        else if occupancy (fill_sweep f) (i - 1, j) \<noteq> 0 \<and> occupancy f (i + 1, j) \<noteq> 0
        then mean_cell (cell (fill_sweep f) (i - 1, j)) (cell f (i + 1, j))
        else cell f (i, j)
      else cell f (i, j))"
proof -
  let ?m = "fst (Shape f) - 1"
  from assms have b: "1 \<le> i" "i + 2 \<le> fst (Shape f)" "1 \<le> j" "j + 2 \<le> snd (Shape f)"
    by (simp_all add: interior_def)
  define F where "F = fold fill_row [1 ..< i] f"
  define R where "R = fill_row i F"
  have split: "[1 ..< ?m] = [1 ..< i] @ i # [Suc i ..< ?m]"
    using b(1,2) by (intro upt_split) auto
  have G: "fill_sweep f = fold fill_row [Suc i ..< ?m] R"
    unfolding fill_sweep_def F_def R_def by (simp only: split fold_append fold.simps comp_apply)
  have shF: "Shape F = Shape f"
    unfolding F_def using fold_fill_row_meta[of f "[1 ..< i]"] by (simp add: same_meta_def)
  have after: "cell (fill_sweep f) (a, b) = cell R (a, b)" if "a \<le> i" for a b
    unfolding G using that by (intro fold_fill_row_other) auto
  have before: "cell F (a, b) = cell f (a, b)" if "i \<le> a" for a b
    unfolding F_def using that by (intro fold_fill_row_other) auto
  have left: "cell R (i, j - 1) = cell (fill_sweep f) (i, j - 1)"
    by (rule after[symmetric]) simp
  have up: "cell F (i - 1, j) = cell (fill_sweep f) (i - 1, j)"
  proof -
    have "cell (fill_sweep f) (i - 1, j) = cell R (i - 1, j)" by (rule after) simp
    also have "\<dots> = cell F (i - 1, j)"
      unfolding R_def using b(1) by (intro fill_row_other) auto
    finally show ?thesis by simp
  qed
  have here: "cell F (i, j) = cell f (i, j)" by (rule before) simp
  have right: "cell F (i, j + 1) = cell f (i, j + 1)" by (rule before) simp
  have down: "cell F (i + 1, j) = cell f (i + 1, j)" by (rule before) simp
  have "cell (fill_sweep f) (i, j) = cell R (i, j)" by (rule after) simp
  also have "\<dots> =
     (if occupancy F (i, j) = 0 then
        if occupancy R (i, j - 1) \<noteq> 0 \<and> occupancy F (i, j + 1) \<noteq> 0
        then mean_cell (cell R (i, j - 1)) (cell F (i, j + 1))
        else if occupancy F (i - 1, j) \<noteq> 0 \<and> occupancy F (i + 1, j) \<noteq> 0
        then mean_cell (cell F (i - 1, j)) (cell F (i + 1, j))
        else cell F (i, j)
      else cell F (i, j))"
    unfolding R_def using b(3,4,1) shF by (intro fill_row_at) auto
  finally show ?thesis
    by (simp only: left here right up down
        cell_occupancy[OF left] cell_occupancy[OF here] cell_occupancy[OF right]
        cell_occupancy[OF up] cell_occupancy[OF down])
qed

lemma fill_sweep_swept: "swept_cell f (fill_sweep f) i j"
proof (cases "interior (Shape f) (i, j)")
  case True
  then show ?thesis by (simp add: swept_cell_def fill_sweep_at)
next
  case False
  then show ?thesis by (simp add: swept_cell_def fill_sweep_other)
qed

lemma make_cur_eq:
  assumes "0 < fst (shape_of cfg)" "0 < snd (shape_of cfg)"
  shows "\<exists>b. bin_vectors (fresh_cur cfg fi p t) mvs = Some b \<and>
           make_cur cfg fi p t mvs =
             Some (if gridStep_of cfg = 8 then fill_sweep (fill_sweep b) else b)"
proof -
  have "\<exists>b. bin_vectors (fresh_cur cfg fi p t) mvs = Some b"
    by (rule bin_vectors_Some) (use assms shape_of_le[of cfg] in \<open>simp_all add: fresh_cur_fields\<close>)
  then obtain b where b: "bin_vectors (fresh_cur cfg fi p t) mvs = Some b" by blast
  then have "Shape b = shape_of cfg" "GridStep b = gridStep_of cfg"
    using bin_vectors_meta[OF b] by (simp_all add: same_meta_def fresh_cur_fields)
  then show ?thesis using assms b
    by (simp add: make_cur_def FillInSomeMissingVectorsInGrid8_def)
qed

lemma fill_sweep_twice_other:
  assumes "\<not> interior (Shape f) c"
  shows "cell (fill_sweep (fill_sweep f)) c = cell f c"
proof -
  have "Shape (fill_sweep f) = Shape f"
    using fill_sweep_meta[of f] by (simp add: same_meta_def)
  with assms show ?thesis by (simp add: fill_sweep_other)
qed

text \<open>
  Claim C2: the neighbour fill runs exactly when the grid step is 8, right after the
  binning of the current frame and before any interpolation or buffering decision; it
  makes exactly two sweeps over the interior cells; in each sweep an empty cell becomes
  the truncating mean of its left and right neighbours, with occupancy 2, when both are
  occupied, otherwise the mean of its upper and lower neighbours when both are
  occupied (horizontal before vertical); cells filled in the first sweep are donors in
  the second; edge cells are never filled. Here \<open>b\<close> is the grid after binning: the
  grid the rest of the call works with is \<open>b\<close> swept twice at step 8 and \<open>b\<close> itself at
  step 16, each sweep treats every cell as \<open>swept_cell\<close> says (the second sweep reading
  the result of the first), and a cell that is not interior comes out as it went in.
\<close>

theorem neighbour_fill_pass:
  assumes "0 < fst (shape_of cfg)" "0 < snd (shape_of cfg)"
  shows "\<exists>b. bin_vectors (fresh_cur cfg fi p t) mvs = Some b \<and>
           make_cur cfg fi p t mvs =
             Some (if gridStep_of cfg = 8 then fill_sweep (fill_sweep b) else b) \<and>
           output_vectors_std cfg fi p t mvs s =
             Some (buffer_step (ARG_OUTPUT_OCCUPANCY cfg) fi mvs
                     (if gridStep_of cfg = 8 then fill_sweep (fill_sweep b) else b) s) \<and>
           (\<forall>i j. swept_cell b (fill_sweep b) i j \<and>
                  swept_cell (fill_sweep b) (fill_sweep (fill_sweep b)) i j) \<and>
           (\<forall>c. \<not> interior (shape_of cfg) c \<longrightarrow>
                  cell (fill_sweep b) c = cell b c \<and>
                  cell (fill_sweep (fill_sweep b)) c = cell b c)"
proof -
  from make_cur_eq[OF assms] obtain b where
    b: "bin_vectors (fresh_cur cfg fi p t) mvs = Some b"
    and c: "make_cur cfg fi p t mvs =
             Some (if gridStep_of cfg = 8 then fill_sweep (fill_sweep b) else b)"
    by blast
  have sh: "Shape b = shape_of cfg"
    using bin_vectors_meta[OF b] by (simp add: same_meta_def fresh_cur_fields)
  have "output_vectors_std cfg fi p t mvs s =
             Some (buffer_step (ARG_OUTPUT_OCCUPANCY cfg) fi mvs
                     (if gridStep_of cfg = 8 then fill_sweep (fill_sweep b) else b) s)"
    by (simp only: output_vectors_std_def c option.case)
  with b c sh show ?thesis
    by (auto simp: fill_sweep_swept fill_sweep_other fill_sweep_twice_other)
qed

theorem neighbour_fill_pass_witness:
  "map_option (\<lambda>c. cell c (1, 1))
     (make_cur cfg8 1 0 (CHR ''P'') [vec 0 4 4 12, vec 17 7 20 4, vec 16 24 20 20])
     = Some (3, 2, 2) \<and>
   map_option (\<lambda>b. (cell b (1, 0), cell b (0, 2), cell b (2, 2),
                      cell (fill_sweep b) (1, 1), cell (fill_sweep b) (1, 2)))
     (bin_vectors (fresh_cur cfg8 1 0 (CHR ''P'')) [vec 0 4 4 12, vec 17 7 20 4, vec 16 24 20 20])
     = Some ((4, 8, 1), (3, - 3, 1), (4, - 4, 1), (0, 0, 0), (3, - 3, 2))"
proof -
  let ?mvs = "[vec 0 4 4 12, vec 17 7 20 4, vec 16 24 20 20]"
  define b0 where "b0 = the (bin_vectors (fresh_cur cfg8 1 0 (CHR ''P'')) ?mvs)"
  have sh: "0 < fst (shape_of cfg8)" "0 < snd (shape_of cfg8)" by code_simp+
  have g: "gridStep_of cfg8 = 8" by code_simp
  from neighbour_fill_pass[OF sh, of 1 0 "CHR ''P''" ?mvs std_init]
  obtain b where b: "bin_vectors (fresh_cur cfg8 1 0 (CHR ''P'')) ?mvs = Some b"
    and c: "make_cur cfg8 1 0 (CHR ''P'') ?mvs = Some (fill_sweep (fill_sweep b))"
    and w: "swept_cell (fill_sweep b) (fill_sweep (fill_sweep b)) 1 1"
    using g by auto
  have b0: "b = b0" using b by (simp add: b0_def)
  have i: "interior (Shape (fill_sweep b0)) (1, 1)" unfolding b0_def by code_simp
  have o: "occupancy (fill_sweep b0) (1, 1) = 0" unfolding b0_def by code_simp
  have l: "occupancy (fill_sweep (fill_sweep b0)) (1, 1 - 1) \<noteq> 0" unfolding b0_def by code_simp
  have r: "occupancy (fill_sweep b0) (1, 1 + 1) \<noteq> 0" unfolding b0_def by code_simp
  have lc: "cell (fill_sweep (fill_sweep b0)) (1, 1 - 1) = (4, 8, 1)" unfolding b0_def by code_simp
  have rc: "cell (fill_sweep b0) (1, 1 + 1) = (3, - 3, 2)" unfolding b0_def by code_simp
  have "cell (fill_sweep (fill_sweep b0)) (1, 1) = mean_cell (4, 8, 1) (3, - 3, 2)"
    using w i o l r unfolding b0 swept_cell_def by (simp only: lc rc if_True simp_thms)
  also have "\<dots> = (3, 2, 2)" by (simp add: mean_cell_def)
  finally have A: "map_option (\<lambda>c. cell c (1, 1)) (make_cur cfg8 1 0 (CHR ''P'') ?mvs)
     = Some (3, 2, 2)" using c b0 by simp
  have B: "map_option (\<lambda>b. (cell b (1, 0), cell b (0, 2), cell b (2, 2),
                      cell (fill_sweep b) (1, 1), cell (fill_sweep b) (1, 2)))
     (bin_vectors (fresh_cur cfg8 1 0 (CHR ''P'')) ?mvs)
     = Some ((4, 8, 1), (3, - 3, 1), (4, - 4, 1), (0, 0, 0), (3, - 3, 2))"
    by code_simp
  from A B show ?thesis by (rule conjI)
qed

section \<open>Occupied cells\<close>

lemma bin_vector_occupancy:
  assumes "bin_vector cur mv = Some c"
  shows "occupancy c (clipped (dst_y mv) (GridStep cur) (fst (Shape cur)),
                      clipped (dst_x mv) (GridStep cur) (snd (Shape cur))) = 1"
    and "occupancy cur k = 1 \<Longrightarrow> occupancy c k = 1"
    and "cells_zero cur \<Longrightarrow> cells_zero c"
  using assms by (auto simp: bin_vector_def Let_def cells_zero_def split: if_splits)

lemma bin_vectors_keeps_occupied:
  "bin_vectors cur mvs = Some b \<Longrightarrow> occupancy cur k = 1 \<Longrightarrow> occupancy b k = 1"
proof (induction mvs arbitrary: cur)
  case Nil
  then show ?case by simp
next
  case (Cons mv mvs)
  then obtain c where c: "bin_vector cur mv = Some c" and r: "bin_vectors c mvs = Some b"
    by (auto split: option.splits)
  from Cons.IH[OF r bin_vector_occupancy(2)[OF c Cons.prems(2)]] show ?case .
qed

lemma bin_vectors_occupancy:
  assumes "bin_vectors cur mvs = Some b" "mv \<in> set mvs"
  shows "occupancy b (clipped (dst_y mv) (GridStep cur) (fst (Shape cur)),
                      clipped (dst_x mv) (GridStep cur) (snd (Shape cur))) = 1"
  using assms
proof (induction mvs arbitrary: cur)
  case Nil
  then show ?case by simp
next
  case (Cons v mvs)
  then obtain c where c: "bin_vector cur v = Some c" and r: "bin_vectors c mvs = Some b"
    by (auto split: option.splits)
  have m: "GridStep c = GridStep cur" "Shape c = Shape cur"
    using bin_vector_meta[OF c] by (simp_all add: same_meta_def)
  show ?case
  proof (cases "mv = v")
    case True
    with bin_vectors_keeps_occupied[OF r bin_vector_occupancy(1)[OF c]] show ?thesis by simp
  next
    case False
    with Cons.prems(2) have "mv \<in> set mvs" by simp
    from Cons.IH[OF r this] m show ?thesis by simp
  qed
qed

lemma bin_vectors_cells_zero:
  "bin_vectors cur mvs = Some b \<Longrightarrow> cells_zero cur \<Longrightarrow> cells_zero b"
proof (induction mvs arbitrary: cur)
  case Nil
  then show ?case by simp
next
  case (Cons mv mvs)
  then obtain c where c: "bin_vector cur mv = Some c" and r: "bin_vectors c mvs = Some b"
    by (auto split: option.splits)
  from Cons.IH[OF r bin_vector_occupancy(3)[OF c Cons.prems(2)]] show ?case .
qed

lemma fill_cell_cells_zero: "cells_zero f \<Longrightarrow> cells_zero (fill_cell i j f)"
  by (auto simp: cells_zero_def fill_cell_def)

lemma fold_fill_cell_cells_zero: "cells_zero f \<Longrightarrow> cells_zero (fold (fill_cell i) js f)"
  by (induction js arbitrary: f) (simp_all add: fill_cell_cells_zero)

lemma fold_fill_row_cells_zero: "cells_zero f \<Longrightarrow> cells_zero (fold fill_row is f)"
  by (induction "is" arbitrary: f) (simp_all add: fill_row_def fold_fill_cell_cells_zero)

lemma fill_sweep_cells_zero: "cells_zero f \<Longrightarrow> cells_zero (fill_sweep f)"
  by (simp add: fill_sweep_def fold_fill_row_cells_zero)

lemma make_cur_cases:
  assumes "make_cur cfg fi p t mvs = Some cur"
  obtains b where "bin_vectors (fresh_cur cfg fi p t) mvs = Some b"
    "cur = b \<or> cur = fill_sweep (fill_sweep b)"
  using assms
  by (auto simp: make_cur_def FillInSomeMissingVectorsInGrid8_def split: option.splits if_splits)

lemma make_cur_cells_zero:
  assumes "make_cur cfg fi p t mvs = Some cur"
  shows "cells_zero cur"
proof -
  from assms obtain b where b: "bin_vectors (fresh_cur cfg fi p t) mvs = Some b"
    and c: "cur = b \<or> cur = fill_sweep (fill_sweep b)" by (rule make_cur_cases)
  have "cells_zero (fresh_cur cfg fi p t)"
    by (simp add: cells_zero_def fresh_cur_def FrameInfo_new_def)
  from bin_vectors_cells_zero[OF b this] c show ?thesis
    by (auto simp: fill_sweep_cells_zero)
qed

lemma make_cur_occupancy:
  assumes "make_cur cfg fi p t mvs = Some cur" "mv \<in> set mvs"
  shows "occupancy cur (target_cell cfg mv) = 1"
proof -
  from assms(1) obtain b where b: "bin_vectors (fresh_cur cfg fi p t) mvs = Some b"
    and c: "cur = b \<or> cur = fill_sweep (fill_sweep b)" by (rule make_cur_cases)
  have o: "occupancy b (target_cell cfg mv) = 1"
    using bin_vectors_occupancy[OF b assms(2)] by (simp add: target_cell_def fresh_cur_fields)
  then have "cell (fill_sweep b) (target_cell cfg mv) = cell b (target_cell cfg mv)"
    by (intro fill_sweep_occupied) simp
  then have o1: "occupancy (fill_sweep b) (target_cell cfg mv) = 1"
    using o by (simp add: cell_def)
  then have "cell (fill_sweep (fill_sweep b)) (target_cell cfg mv)
      = cell (fill_sweep b) (target_cell cfg mv)"
    by (intro fill_sweep_occupied) simp
  then have "occupancy (fill_sweep (fill_sweep b)) (target_cell cfg mv) = 1"
    using o1 by (simp add: cell_def)
  with o c show ?thesis by auto
qed

section \<open>A frame with vectors\<close>

lemma PrintIfNotPrinted_out_unprinted:
  assumes "\<not> Printed f"
  shows "\<exists>fp. out (snd (PrintIfNotPrinted occ f e)) = out e @ [render occ fp f]"
  using assms by (auto simp: PrintIfNotPrinted_out)

lemma buffer_step_vectors_out:
  assumes "fi \<noteq> - 1" "mvs \<noteq> []" "\<not> Printed cur"
  shows "\<exists>new fp. out (em (buffer_step occ fi mvs cur s)) =
                     out (em s) @ new @ [render occ fp cur]"
proof -
  define e1 where "e1 =
    (if length (prev s) = 2 \<and> Empty (hd (prev s)) = False then
       snd (PrintIfNotPrinted occ (InterpolateFlow (last (prev s)) (hd (prev s)) cur) (em s))
     else snd (print_all occ (prev s) (em s)))"
  have em: "em (buffer_step occ fi mvs cur s) = snd (PrintIfNotPrinted occ cur e1)"
    using assms(1,2) by (simp add: buffer_step_def Let_def case_prod_beta e1_def)
  have "\<exists>new. out e1 = out (em s) @ new"
    using print_all_out[of occ "prev s" "em s"] by (auto simp: e1_def PrintIfNotPrinted_out)
  then obtain new where new: "out e1 = out (em s) @ new" by blast
  from PrintIfNotPrinted_out_unprinted[OF assms(3), of occ e1] obtain fp where
    "out (snd (PrintIfNotPrinted occ cur e1)) = out e1 @ [render occ fp cur]" by blast
  with em new have "out (em (buffer_step occ fi mvs cur s)) = out (em s) @ new @ [render occ fp cur]"
    by simp
  then show ?thesis by blast
qed

text \<open>
  Claim C10: binning marks a cell occupied (occupancy 1) and the grid non-empty for
  every delivered vector, whatever its displacement, also zero; so a frame whose vector
  list is non-empty takes the vector-carrying path: it is emitted in the same call, it
  replaces the buffer, and it can be the non-empty first grid of a later interpolation.
  There is no hypothesis on the displacements. The last part is shown on the two calls
  that follow: a frame without vectors and then a frame with vectors make the pipeline
  emit the interpolation between this grid and that later frame.
\<close>

theorem vectors_make_frame_non_empty:
  assumes "0 < fst (shape_of cfg)" "0 < snd (shape_of cfg)"
    and "mvs \<noteq> []" "fi \<noteq> - 1"
  shows "\<exists>cur s'. make_cur cfg fi p t mvs = Some cur \<and>
           output_vectors_std cfg fi p t mvs s = Some s' \<and>
           (\<forall>mv\<in>set mvs. occupancy cur (target_cell cfg mv) = 1) \<and>
           \<not> Empty cur \<and>
           prev s' = [cur\<lparr>Printed := True\<rparr>] \<and>
           (\<exists>new fp. out (em s') =
                        out (em s) @ new @ [render (ARG_OUTPUT_OCCUPANCY cfg) fp cur]) \<and>
           (\<forall>fi2 p2 t2 fi3 p3 t3 mvs3. fi2 \<noteq> - 1 \<and> fi3 \<noteq> - 1 \<and> mvs3 \<noteq> [] \<longrightarrow>
              (\<exists>mid cur3 s2 s3 fp1 fp2.
                 make_cur cfg fi2 p2 t2 [] = Some mid \<and>
                 make_cur cfg fi3 p3 t3 mvs3 = Some cur3 \<and>
                 output_vectors_std cfg fi2 p2 t2 [] s' = Some s2 \<and>
                 output_vectors_std cfg fi3 p3 t3 mvs3 s2 = Some s3 \<and>
                 out (em s3) = out (em s') @
                   [render (ARG_OUTPUT_OCCUPANCY cfg) fp1
                      (InterpolateFlow mid (cur\<lparr>Printed := True\<rparr>) cur3),
                    render (ARG_OUTPUT_OCCUPANCY cfg) fp2 cur3]))"
proof -
  let ?occ = "ARG_OUTPUT_OCCUPANCY cfg"
  from make_cur_Some[OF assms(1,2)] obtain cur where cur: "make_cur cfg fi p t mvs = Some cur"
    by blast
  note m = make_cur_meta[OF cur]
  define s' where "s' = buffer_step ?occ fi mvs cur s"
  have o: "output_vectors_std cfg fi p t mvs s = Some s'"
    by (simp add: output_vectors_std_def cur s'_def)
  have occ1: "\<forall>mv\<in>set mvs. occupancy cur (target_cell cfg mv) = 1"
    using make_cur_occupancy[OF cur] by blast
  have ne: "\<not> Empty cur" using m(8) assms(3) by simp
  have pr: "prev s' = [cur\<lparr>Printed := True\<rparr>]"
    unfolding s'_def using assms(4,3) by (rule buffer_step_vectors)
  have out: "\<exists>new fp. out (em s') = out (em s) @ new @ [render ?occ fp cur]"
    unfolding s'_def using assms(4,3) m(7) by (rule buffer_step_vectors_out)
  have later: "\<exists>mid cur3 s2 s3 fp1 fp2.
                 make_cur cfg fi2 p2 t2 [] = Some mid \<and>
                 make_cur cfg fi3 p3 t3 mvs3 = Some cur3 \<and>
                 output_vectors_std cfg fi2 p2 t2 [] s' = Some s2 \<and>
                 output_vectors_std cfg fi3 p3 t3 mvs3 s2 = Some s3 \<and>
                 out (em s3) = out (em s') @
                   [render ?occ fp1 (InterpolateFlow mid (cur\<lparr>Printed := True\<rparr>) cur3),
                    render ?occ fp2 cur3]"
    if h: "fi2 \<noteq> - 1" "fi3 \<noteq> - 1" "mvs3 \<noteq> []" for fi2 p2 t2 fi3 p3 t3 mvs3
  proof -
    from make_cur_Some[OF assms(1,2)] obtain mid where mid: "make_cur cfg fi2 p2 t2 [] = Some mid"
      by blast
    from make_cur_Some[OF assms(1,2)] obtain cur3
      where cur3: "make_cur cfg fi3 p3 t3 mvs3 = Some cur3" by blast
    define s2 where "s2 = buffer_step ?occ fi2 [] mid s'"
    define s3 where "s3 = buffer_step ?occ fi3 mvs3 cur3 s2"
    have o2: "output_vectors_std cfg fi2 p2 t2 [] s' = Some s2"
      by (simp add: output_vectors_std_def mid s2_def)
    have o3: "output_vectors_std cfg fi3 p3 t3 mvs3 s2 = Some s3"
      by (simp add: output_vectors_std_def cur3 s3_def)
    have p2: "prev s2 = [cur\<lparr>Printed := True\<rparr>, mid]" and e2: "em s2 = em s'"
      unfolding s2_def using h(1) pr by (simp_all add: buffer_step_no_vectors)
    have ne': "\<not> Empty (cur\<lparr>Printed := True\<rparr>)" using ne by simp
    have "out (em s3) = out (em s') @
        [render ?occ (if FirstPts (em s') = - 1 then Pts mid else FirstPts (em s'))
           (InterpolateFlow mid (cur\<lparr>Printed := True\<rparr>) cur3)] @
        [render ?occ
           (if FirstPts (snd (PrintIfNotPrinted ?occ
                 (InterpolateFlow mid (cur\<lparr>Printed := True\<rparr>) cur3) (em s'))) = - 1
            then Pts cur3
            else FirstPts (snd (PrintIfNotPrinted ?occ
                 (InterpolateFlow mid (cur\<lparr>Printed := True\<rparr>) cur3) (em s'))))
           cur3]"
      unfolding s3_def
      using make_cur_meta(7)[OF mid] make_cur_meta(7)[OF cur3]
      by (simp add: buffer_step_case_A[OF h(2,3) p2 ne'] e2 PrintIfNotPrinted_out
          InterpolateFlow_fields)
    with mid cur3 o2 o3 show ?thesis by auto
  qed
  from cur o occ1 ne pr out later show ?thesis by blast
qed

theorem vectors_make_frame_non_empty_witness:
  "(\<exists>s'. output_vectors_std cfg16 1 0 (CHR ''I'') [vec 16 16 16 16] std_init = Some s' \<and>
          length (prev s') = 1 \<and> \<not> Empty (hd (prev s')) \<and> Printed (hd (prev s')) \<and>
          occupancy (hd (prev s')) (1, 1) = 1) \<and>
   map_option (\<lambda>s. map (\<lambda>b. (b_frame_index b, b_origin b, b_dx b ! 1 ! 1, b_dy b ! 1 ! 1,
                                b_occupancy b ! 1 ! 1)) (out (em s)))
     (run_std cfg16 [(1, 0, CHR ''I'', [vec 16 16 16 16]), (2, 1, CHR ''P'', []),
                     (3, 2, CHR ''P'', [vec 16 16 16 16])] std_init)
   = Some [(1, ''video'', 0, 0, 1), (2, ''interpolated'', 0, 0, 0), (3, ''video'', 0, 0, 1)]"
proof -
  have sh: "0 < fst (shape_of cfg16)" "0 < snd (shape_of cfg16)" by code_simp+
  have nv: "[vec 16 16 16 16] \<noteq> []" and ni: "(1 :: int) \<noteq> - 1" by simp_all
  from vectors_make_frame_non_empty[OF sh nv ni, of 0 "CHR ''I''" std_init]
  obtain cur s' where
    o: "output_vectors_std cfg16 1 0 (CHR ''I'') [vec 16 16 16 16] std_init = Some s'"
    and oc: "\<forall>mv\<in>set [vec 16 16 16 16]. occupancy cur (target_cell cfg16 mv) = 1"
    and ne: "\<not> Empty cur"
    and pr: "prev s' = [cur\<lparr>Printed := True\<rparr>]"
    by blast
  have "target_cell cfg16 (vec 16 16 16 16) = (1, 1)" by code_simp
  with oc have "occupancy cur (1, 1) = 1" by simp
  with o ne pr have A: "\<exists>s'. output_vectors_std cfg16 1 0 (CHR ''I'') [vec 16 16 16 16] std_init
          = Some s' \<and>
          length (prev s') = 1 \<and> \<not> Empty (hd (prev s')) \<and> Printed (hd (prev s')) \<and>
          occupancy (hd (prev s')) (1, 1) = 1" by simp
  have B: "map_option (\<lambda>s. map (\<lambda>b. (b_frame_index b, b_origin b, b_dx b ! 1 ! 1, b_dy b ! 1 ! 1,
                                b_occupancy b ! 1 ! 1)) (out (em s)))
     (run_std cfg16 [(1, 0, CHR ''I'', [vec 16 16 16 16]), (2, 1, CHR ''P'', []),
                     (3, 2, CHR ''P'', [vec 16 16 16 16])] std_init)
   = Some [(1, ''video'', 0, 0, 1), (2, ''interpolated'', 0, 0, 0), (3, ''video'', 0, 0, 1)]"
    by code_simp
  from A B show ?thesis by (rule conjI)
qed

section \<open>Empty cells of emitted grids\<close>

lemma matrix_nth:
  assumes "i < fst shape" "j < snd shape"
  shows "matrix shape a ! i ! j = a (i, j)"
  using assms by (simp add: matrix_def)

lemma matrix_length:
  "length (matrix shape a) = fst shape"
  "i < fst shape \<Longrightarrow> length (matrix shape a ! i) = snd shape"
  by (simp_all add: matrix_def)

lemma render_cells_zero:
  assumes "cells_zero f"
  shows "block_cells_zero (render occ fp f)"
proof (cases occ)
  case False
  then show ?thesis by (simp add: block_cells_zero_def render_def)
next
  case True
  show ?thesis
    unfolding block_cells_zero_def
  proof (intro allI impI)
    fix i j
    assume i: "i < length (b_occupancy (render occ fp f))"
      and j: "j < length (b_occupancy (render occ fp f) ! i)"
      and z: "b_occupancy (render occ fp f) ! i ! j = 0"
    from i True have i': "i < fst (Shape f)" by (simp add: render_def matrix_length)
    with j True have j': "j < snd (Shape f)" by (simp add: render_def matrix_length)
    from z True i' j' have "occupancy f (i, j) = 0" by (simp add: render_def matrix_nth)
    with assms have "dx f (i, j) = 0 \<and> dy f (i, j) = 0" by (simp add: cells_zero_def)
    with i' j' show "b_dx (render occ fp f) ! i ! j = 0 \<and> b_dy (render occ fp f) ! i ! j = 0"
      by (simp add: render_def matrix_nth)
  qed
qed


lemma PrintIfNotPrinted_blocks:
  assumes "\<forall>b\<in>set (out e). b_origin b = ''video'' \<longrightarrow> (\<exists>f fp. cells_zero f \<and> b = render occ fp f)"
    and "Origin f = ''video'' \<longrightarrow> cells_zero f"
  shows "\<forall>b\<in>set (out (snd (PrintIfNotPrinted occ f e))).
           b_origin b = ''video'' \<longrightarrow> (\<exists>f fp. cells_zero f \<and> b = render occ fp f)"
proof -
  have o: "b_origin (render occ fp f) = Origin f" for fp by (simp add: render_def)
  have "b_origin (render occ fp f) = ''video'' \<longrightarrow>
          (\<exists>g fp'. cells_zero g \<and> render occ fp f = render occ fp' g)" for fp
    using assms(2) by (simp only: o) blast
  with assms(1) show ?thesis by (auto simp: PrintIfNotPrinted_out)
qed

lemma print_all_blocks:
  assumes "\<forall>b\<in>set (out e). b_origin b = ''video'' \<longrightarrow> (\<exists>f fp. cells_zero f \<and> b = render occ fp f)"
    and "\<forall>f\<in>set fs. cells_zero f"
  shows "\<forall>b\<in>set (out (snd (print_all occ fs e))).
           b_origin b = ''video'' \<longrightarrow> (\<exists>f fp. cells_zero f \<and> b = render occ fp f)"
  using assms
proof (induction fs arbitrary: e)
  case Nil
  then show ?case by simp
next
  case (Cons g gs)
  have "\<forall>b\<in>set (out (snd (PrintIfNotPrinted occ g e))).
           b_origin b = ''video'' \<longrightarrow> (\<exists>f fp. cells_zero f \<and> b = render occ fp f)"
    using Cons.prems by (intro PrintIfNotPrinted_blocks) auto
  from Cons.IH[OF this] Cons.prems(2) show ?case
    by (simp add: print_all_Cons del: print_all.simps(2))
qed

lemma print_all_fst: "fst (print_all occ fs e) = map (\<lambda>f. f\<lparr>Printed := True\<rparr>) fs"
  by (induction fs arbitrary: e)
    (simp_all add: print_all_Cons PrintIfNotPrinted_fst del: print_all.simps(2))

lemma cells_zero_Printed [simp]: "cells_zero (f\<lparr>Printed := x\<rparr>) = cells_zero f"
  by (simp add: cells_zero_def)

lemma buffer_step_grids_ok:
  assumes "grids_ok occ s" "cells_zero cur"
  shows "grids_ok occ (buffer_step occ fi mvs cur s)"
proof -
  from assms(1) have ps: "\<forall>f\<in>set (prev s). cells_zero f"
    and bs: "\<forall>b\<in>set (out (em s)). b_origin b = ''video'' \<longrightarrow> (\<exists>f fp. cells_zero f \<and> b = render occ fp f)"
    by (simp_all add: grids_ok_def)
  note pa = print_all_blocks[OF bs ps]
  show ?thesis
  proof (cases "fi = - 1")
    case True
    with ps pa assms(2) show ?thesis
      by (simp add: grids_ok_def buffer_step_flush print_all_fst)
  next
    case fi: False
    show ?thesis
    proof (cases "mvs = []")
      case True
      with fi assms show ?thesis by (simp add: grids_ok_def buffer_step_no_vectors)
    next
      case mv: False
      define e1 where "e1 =
        (if length (prev s) = 2 \<and> Empty (hd (prev s)) = False then
           snd (PrintIfNotPrinted occ (InterpolateFlow (last (prev s)) (hd (prev s)) cur) (em s))
         else snd (print_all occ (prev s) (em s)))"
      have em: "em (buffer_step occ fi mvs cur s) = snd (PrintIfNotPrinted occ cur e1)"
        using fi mv by (simp add: buffer_step_def Let_def case_prod_beta e1_def)
      have "\<forall>b\<in>set (out (snd (PrintIfNotPrinted occ
                (InterpolateFlow (last (prev s)) (hd (prev s)) cur) (em s)))).
              b_origin b = ''video'' \<longrightarrow> (\<exists>f fp. cells_zero f \<and> b = render occ fp f)"
        using bs by (intro PrintIfNotPrinted_blocks) (simp_all add: InterpolateFlow_fields)
      with pa have "\<forall>b\<in>set (out e1). b_origin b = ''video'' \<longrightarrow> (\<exists>f fp. cells_zero f \<and> b = render occ fp f)"
        by (simp add: e1_def)
      then have "\<forall>b\<in>set (out (snd (PrintIfNotPrinted occ cur e1))).
              b_origin b = ''video'' \<longrightarrow> (\<exists>f fp. cells_zero f \<and> b = render occ fp f)"
        using assms(2) by (intro PrintIfNotPrinted_blocks) simp_all
      with em assms(2) fi mv show ?thesis
        by (simp add: grids_ok_def buffer_step_vectors)
    qed
  qed
qed

lemma run_std_grids_ok:
  assumes "run_std cfg calls s0 = Some s" "grids_ok (ARG_OUTPUT_OCCUPANCY cfg) s0"
  shows "grids_ok (ARG_OUTPUT_OCCUPANCY cfg) s"
  using assms
proof (induction calls arbitrary: s0)
  case Nil
  then show ?case by simp
next
  case (Cons c cs)
  obtain fi p t mvs where c: "c = (fi, p, t, mvs)" by (cases c)
  with Cons.prems(1) obtain s1 where s1: "output_vectors_std cfg fi p t mvs s0 = Some s1"
    and r: "run_std cfg cs s1 = Some s" by (auto split: option.splits)
  from s1 obtain cur where cur: "make_cur cfg fi p t mvs = Some cur"
    and e: "s1 = buffer_step (ARG_OUTPUT_OCCUPANCY cfg) fi mvs cur s0"
    by (rule output_vectors_std_Some)
  have "grids_ok (ARG_OUTPUT_OCCUPANCY cfg) s1"
    unfolding e by (rule buffer_step_grids_ok[OF Cons.prems(2) make_cur_cells_zero[OF cur]])
  from Cons.IH[OF r this] show ?case .
qed

text \<open>
  Claim C8 says that in every grid the arranged pipeline emits, also those of origin
  "interpolated", every cell of occupancy 0 has displacement zero. On the frames with
  pts 10, 11, 12, the middle one without vectors, the second block on standard output is
  the interpolated grid: its cell (1, 1) has occupancy 0 and displacement (3, -3).
\<close>

theorem interpolated_grid_nonzero_empty_cell:
  "run_std cfg16 [(1, 10, CHR ''I'', [vec 13 18 16 16]), (2, 11, CHR ''P'', []),
                  (3, 12, CHR ''P'', [vec 12 21 16 16])] std_init \<noteq> None \<and>
   b_origin (out (em (the (run_std cfg16 [(1, 10, CHR ''I'', [vec 13 18 16 16]),
       (2, 11, CHR ''P'', []), (3, 12, CHR ''P'', [vec 12 21 16 16])] std_init))) ! 1)
     = ''interpolated'' \<and>
   b_occupancy (out (em (the (run_std cfg16 [(1, 10, CHR ''I'', [vec 13 18 16 16]),
       (2, 11, CHR ''P'', []), (3, 12, CHR ''P'', [vec 12 21 16 16])] std_init))) ! 1) ! 1 ! 1
     = 0 \<and>
   b_dx (out (em (the (run_std cfg16 [(1, 10, CHR ''I'', [vec 13 18 16 16]),
       (2, 11, CHR ''P'', []), (3, 12, CHR ''P'', [vec 12 21 16 16])] std_init))) ! 1) ! 1 ! 1
     = 3 \<and>
   b_dy (out (em (the (run_std cfg16 [(1, 10, CHR ''I'', [vec 13 18 16 16]),
       (2, 11, CHR ''P'', []), (3, 12, CHR ''P'', [vec 12 21 16 16])] std_init))) ! 1) ! 1 ! 1
     = - 3"
  by code_simp

section \<open>The displacements stay in the range of a C int\<close>

lemma sdiv_2_bound:
  assumes "\<bar>a\<bar> \<le> (m :: int)" "\<bar>b\<bar> \<le> m"
  shows "\<bar>(a + b) sdiv 2\<bar> \<le> m"
proof -
  have "\<bar>(a + b) sdiv 2\<bar> = \<bar>a + b\<bar> div 2"
    by (cases "a + b = 0") (simp_all add: signed_divide_int_def abs_mult abs_sgn_eq)
  also have "\<dots> \<le> m" using assms by linarith
  finally show ?thesis .
qed

lemma difference_bound:
  "\<bar>sint (a :: int16_t) - sint (b :: int16_t)\<bar> \<le> 65535"
  using sint16_range[of a] sint16_range[of b] by linarith

lemma bin_vector_bounded:
  assumes "bin_vector cur mv = Some c" "cells_bounded cur"
  shows "cells_bounded c"
proof -
  from assms(1) obtain k where
    "dx c = (dx cur)(k := sint (dst_x mv) - sint (src_x mv))"
    "dy c = (dy cur)(k := sint (dst_y mv) - sint (src_y mv))"
    by (auto simp: bin_vector_def Let_def split: if_splits)
  with assms(2) difference_bound[of "dst_x mv" "src_x mv"] difference_bound[of "dst_y mv" "src_y mv"]
  show ?thesis by (simp add: cells_bounded_def)
qed

lemma bin_vectors_bounded:
  "bin_vectors cur mvs = Some b \<Longrightarrow> cells_bounded cur \<Longrightarrow> cells_bounded b"
proof (induction mvs arbitrary: cur)
  case Nil
  then show ?case by simp
next
  case (Cons mv mvs)
  then obtain c where c: "bin_vector cur mv = Some c" and r: "bin_vectors c mvs = Some b"
    by (auto split: option.splits)
  from Cons.IH[OF r bin_vector_bounded[OF c Cons.prems(2)]] show ?case .
qed

lemma fill_cell_bounded:
  assumes "cells_bounded f"
  shows "cells_bounded (fill_cell i j f)"
proof -
  have b: "\<bar>dx f c\<bar> \<le> 65535" "\<bar>dy f c\<bar> \<le> 65535" for c
    using assms unfolding cells_bounded_def by blast+
  have m: "\<bar>(dx f a + dx f c) sdiv 2\<bar> \<le> 65535" "\<bar>(dy f a + dy f c) sdiv 2\<bar> \<le> 65535" for a c
    by (rule sdiv_2_bound[OF b(1) b(1)], rule sdiv_2_bound[OF b(2) b(2)])
  show ?thesis
    unfolding fill_cell_def cells_bounded_def using b m by simp
qed

lemma fold_fill_cell_bounded: "cells_bounded f \<Longrightarrow> cells_bounded (fold (fill_cell i) js f)"
  by (induction js arbitrary: f) (simp_all add: fill_cell_bounded)

lemma fold_fill_row_bounded: "cells_bounded f \<Longrightarrow> cells_bounded (fold fill_row is f)"
  by (induction "is" arbitrary: f) (simp_all add: fill_row_def fold_fill_cell_bounded)

lemma fill_sweep_bounded: "cells_bounded f \<Longrightarrow> cells_bounded (fill_sweep f)"
  by (simp add: fill_sweep_def fold_fill_row_bounded)

lemma make_cur_bounded:
  assumes "make_cur cfg fi p t mvs = Some cur"
  shows "cells_bounded cur"
proof -
  from assms obtain b where b: "bin_vectors (fresh_cur cfg fi p t) mvs = Some b"
    and c: "cur = b \<or> cur = fill_sweep (fill_sweep b)" by (rule make_cur_cases)
  have "cells_bounded (fresh_cur cfg fi p t)"
    by (simp add: cells_bounded_def fresh_cur_def FrameInfo_new_def)
  from bin_vectors_bounded[OF b this] c show ?thesis
    by (auto simp: fill_sweep_bounded)
qed

lemma InterpolateFlow_bounded:
  assumes "cells_bounded this" "cells_bounded p" "cells_bounded n"
  shows "cells_bounded (InterpolateFlow this p n)"
  unfolding cells_bounded_def
proof (intro allI)
  fix c :: "nat \<times> nat"
  obtain i j where c: "c = (i, j)" by (cases c)
  from assms show "\<bar>dx (InterpolateFlow this p n) c\<bar> \<le> 65535 \<and>
      \<bar>dy (InterpolateFlow this p n) c\<bar> \<le> 65535"
    unfolding c by (simp add: InterpolateFlow_cells cells_bounded_def sdiv_2_bound)
qed

lemma buffer_step_prev:
  assumes "g \<in> set (prev (buffer_step occ fi mvs cur s))"
  shows "\<exists>f\<in>insert cur (set (prev s)). g = f \<or> g = f\<lparr>Printed := True\<rparr>"
proof (cases "fi = - 1")
  case True
  with assms show ?thesis by (auto simp: buffer_step_flush print_all_fst)
next
  case fi: False
  show ?thesis
  proof (cases "mvs = []")
    case True
    with assms fi show ?thesis by (auto simp: buffer_step_no_vectors)
  next
    case False
    with assms fi show ?thesis by (simp add: buffer_step_vectors)
  qed
qed

lemma cells_bounded_Printed [simp]: "cells_bounded (f\<lparr>Printed := x\<rparr>) = cells_bounded f"
  by (simp add: cells_bounded_def)

text \<open>
  Every grid in the buffer is bounded after any calls, so every sum the neighbour fill
  or the interpolation forms is between -131070 and 131070.
\<close>

lemma run_std_bounded:
  assumes "run_std cfg calls s0 = Some s" "\<forall>f\<in>set (prev s0). cells_bounded f"
  shows "\<forall>f\<in>set (prev s). cells_bounded f"
  using assms
proof (induction calls arbitrary: s0)
  case Nil
  then show ?case by simp
next
  case (Cons c cs)
  obtain fi p t mvs where c: "c = (fi, p, t, mvs)" by (cases c)
  with Cons.prems(1) obtain s1 where s1: "output_vectors_std cfg fi p t mvs s0 = Some s1"
    and r: "run_std cfg cs s1 = Some s" by (auto split: option.splits)
  from s1 obtain cur where cur: "make_cur cfg fi p t mvs = Some cur"
    and e: "s1 = buffer_step (ARG_OUTPUT_OCCUPANCY cfg) fi mvs cur s0"
    by (rule output_vectors_std_Some)
  have b: "cells_bounded cur" using cur by (rule make_cur_bounded)
  have "\<forall>f\<in>set (prev s1). cells_bounded f"
  proof
    fix g assume "g \<in> set (prev s1)"
    from buffer_step_prev[OF this[unfolded e]] obtain f
      where "f \<in> insert cur (set (prev s0))" "g = f \<or> g = f\<lparr>Printed := True\<rparr>" by blast
    with Cons.prems(2) b show "cells_bounded g" by auto
  qed
  from Cons.IH[OF r this] show ?case .
qed

section \<open>The header lines of a run\<close>

lemma rebased_append:
  "rebased fp (xs @ ys) = rebased fp xs @ rebased (baseline_after fp xs) ys"
  by (induction fp xs rule: rebased.induct) simp_all

lemma baseline_after_append:
  "baseline_after fp (xs @ ys) = baseline_after (baseline_after fp xs) ys"
  by (induction fp xs rule: baseline_after.induct) simp_all

lemma map_fst_rebased: "map fst (rebased fp xs) = map fst xs"
  by (induction fp xs rule: rebased.induct) simp_all

lemma rebased_from_set_baseline:
  "fp \<noteq> - 1 \<Longrightarrow> rebased fp xs = map (\<lambda>(i, p). (i, sint (p - fp))) xs"
  by (induction fp xs rule: rebased.induct) simp_all

lemma PrintIfNotPrinted_headers:
  "map header (out (snd (PrintIfNotPrinted occ f e))) =
     map header (out e) @ rebased (FirstPts e) (if Printed f then [] else [stamp f])"
  "FirstPts (snd (PrintIfNotPrinted occ f e)) =
     baseline_after (FirstPts e) (if Printed f then [] else [stamp f])"
  by (simp_all add: PrintIfNotPrinted_def Let_def header_def stamp_def render_def)

lemma print_all_headers:
  "map header (out (snd (print_all occ fs e))) =
     map header (out e) @ rebased (FirstPts e) (map stamp (filter (\<lambda>f. \<not> Printed f) fs)) \<and>
   FirstPts (snd (print_all occ fs e)) =
     baseline_after (FirstPts e) (map stamp (filter (\<lambda>f. \<not> Printed f) fs))"
proof (induction fs arbitrary: e)
  case Nil
  then show ?case by simp
next
  case (Cons g gs)
  let ?e' = "snd (PrintIfNotPrinted occ g e)"
  have s: "snd (print_all occ (g # gs) e) = snd (print_all occ gs ?e')"
    by (simp only: print_all_Cons snd_conv)
  show ?case
  proof (cases "Printed g")
    case True
    then have "?e' = e" by (simp add: PrintIfNotPrinted_noop)
    with Cons.IH[of e] s True show ?thesis by simp
  next
    case False
    have "map stamp (filter (\<lambda>f. \<not> Printed f) (g # gs)) =
            [stamp g] @ map stamp (filter (\<lambda>f. \<not> Printed f) gs)"
      using False by simp
    with Cons.IH[of ?e'] PrintIfNotPrinted_headers[of occ g e] s False show ?thesis
      by (simp only: rebased_append baseline_after_append if_False append_assoc)
  qed
qed

text \<open>
  One call for a frame: the header lines already written, followed by those the
  unprinted grids of the buffer will get, grow by the header of the new frame.
\<close>

lemma buffer_step_headers:
  assumes "buffer_inv s" "fi \<noteq> - 1" "\<not> Printed cur"
  shows "map header (out (em (buffer_step occ fi mvs cur s))) @
           rebased (FirstPts (em (buffer_step occ fi mvs cur s)))
             (map stamp (filter (\<lambda>f. \<not> Printed f) (prev (buffer_step occ fi mvs cur s)))) =
         map header (out (em s)) @
           rebased (FirstPts (em s))
             (map stamp (filter (\<lambda>f. \<not> Printed f) (prev s)) @ [stamp cur]) \<and>
         baseline_after (FirstPts (em (buffer_step occ fi mvs cur s)))
             (map stamp (filter (\<lambda>f. \<not> Printed f) (prev (buffer_step occ fi mvs cur s)))) =
         baseline_after (FirstPts (em s))
             (map stamp (filter (\<lambda>f. \<not> Printed f) (prev s)) @ [stamp cur])"
proof -
  define s' where "s' = buffer_step occ fi mvs cur s"
  let ?U = "map stamp (filter (\<lambda>f. \<not> Printed f) (prev s))"
  have "map header (out (em s')) @
           rebased (FirstPts (em s')) (map stamp (filter (\<lambda>f. \<not> Printed f) (prev s'))) =
         map header (out (em s)) @ rebased (FirstPts (em s)) (?U @ [stamp cur]) \<and>
        baseline_after (FirstPts (em s')) (map stamp (filter (\<lambda>f. \<not> Printed f) (prev s'))) =
         baseline_after (FirstPts (em s)) (?U @ [stamp cur])"
  proof (cases "mvs = []")
    case True
    with assms(2,3) show ?thesis by (simp add: s'_def buffer_step_no_vectors)
  next
    case False
    define e1 where "e1 =
      (if length (prev s) = 2 \<and> Empty (hd (prev s)) = False then
         snd (PrintIfNotPrinted occ (InterpolateFlow (last (prev s)) (hd (prev s)) cur) (em s))
       else snd (print_all occ (prev s) (em s)))"
    have em: "em s' = snd (PrintIfNotPrinted occ cur e1)"
      using assms(2) False by (simp add: s'_def buffer_step_def Let_def case_prod_beta e1_def)
    have pr: "prev s' = [cur\<lparr>Printed := True\<rparr>]"
      unfolding s'_def using assms(2) False by (rule buffer_step_vectors)
    have e1: "map header (out e1) = map header (out (em s)) @ rebased (FirstPts (em s)) ?U \<and>
              FirstPts e1 = baseline_after (FirstPts (em s)) ?U"
    proof (cases "length (prev s) = 2 \<and> \<not> Empty (hd (prev s))")
      case True
      then obtain p0 p1 where p: "prev s = [p0, p1]" "\<not> Empty p0"
        by (cases "prev s"; cases "tl (prev s)") auto
      then have "Printed p0" using assms(1) by (simp add: buffer_inv_def)
      with p show ?thesis
        by (simp add: e1_def PrintIfNotPrinted_headers InterpolateFlow_fields stamp_def)
    next
      case False
      then show ?thesis using print_all_headers[of occ "prev s" "em s"] by (auto simp: e1_def)
    qed
    show ?thesis
      using e1 assms(3)
      by (simp add: em pr PrintIfNotPrinted_headers rebased_append baseline_after_append)
  qed
  then show ?thesis unfolding s'_def .
qed

lemma run_std_headers:
  assumes "run_std cfg calls std_init = Some s" "\<forall>c\<in>set calls. call_index c \<noteq> - 1"
  shows "map header (out (em s)) @
           rebased (FirstPts (em s)) (map stamp (filter (\<lambda>f. \<not> Printed f) (prev s)))
           = rebased (- 1) (map call_stamp calls) \<and>
         baseline_after (FirstPts (em s)) (map stamp (filter (\<lambda>f. \<not> Printed f) (prev s)))
           = baseline_after (- 1) (map call_stamp calls)"
  using assms
proof (induction calls arbitrary: s rule: rev_induct)
  case Nil
  then show ?case by (auto simp: std_init_def)
next
  case (snoc c cs)
  from snoc.prems(1) obtain t where t: "run_std cfg cs std_init = Some t"
    and o: "output_vectors_std cfg (fst c) (fst (snd c)) (fst (snd (snd c))) (snd (snd (snd c))) t = Some s"
    by (rule run_std_snoc)
  from o obtain cur where
    cur: "make_cur cfg (fst c) (fst (snd c)) (fst (snd (snd c))) (snd (snd (snd c))) = Some cur"
    and s: "s = buffer_step (ARG_OUTPUT_OCCUPANCY cfg) (fst c) (snd (snd (snd c))) cur t"
    by (rule output_vectors_std_Some)
  have cs: "\<forall>c\<in>set cs. call_index c \<noteq> - 1" using snoc.prems(2) by simp
  note ih = snoc.IH[OF t cs]
  have inv: "buffer_inv t" using run_std_invariant[OF t cs] by simp
  have i: "fst c \<noteq> - 1" using snoc.prems(2) by (simp add: call_index_def)
  note m = make_cur_meta[OF cur]
  have st: "stamp cur = call_stamp c" by (simp add: stamp_def call_stamp_def m)
  from buffer_step_headers[OF inv i m(7), of "ARG_OUTPUT_OCCUPANCY cfg" "snd (snd (snd c))"] ih
  show ?case
    unfolding s by (simp add: rebased_append baseline_after_append st)
qed

text \<open>
  When the first frame's pts is not -1, the baseline is that pts for the whole run and
  every header shows the frame's pts minus the first frame's pts.
\<close>

lemma rebased_first_pts:
  assumes "p \<noteq> - 1"
  shows "rebased (- 1) ((i, p) # xs) = map (\<lambda>(j, q). (j, sint (q - p))) ((i, p) # xs)"
  using assms by (simp add: rebased_from_set_baseline)

text \<open>
  Claim C6: every grid the pipeline creates for a frame is emitted exactly once. Each
  grid carries the flag \<open>Printed\<close>; emitting sets it, and emitting a grid whose flag is
  set changes nothing. Over a whole run (any frames, then the flush call with the
  sentinel index) on a stream whose grids have at least one row and one column, every
  call returns, and the frame indices of the header lines on standard output are exactly
  the frame indices of the frames given to the pipeline, each once and in their order;
  after the flush no grid of a frame is left unprinted in the buffer (its last element is
  the record of the flush call itself, which stands for no frame and is never printed).
  The pts of a header line is the frame's pts minus the emitter's baseline: the pairs of
  frame index and printed pts are those \<open>rebased\<close> gives for the frames' pairs of frame
  index and pts, starting from the unset baseline.
\<close>

theorem every_frame_emitted_once:
  assumes "0 < fst (shape_of cfg)" "0 < snd (shape_of cfg)"
    and "\<forall>c\<in>set calls. call_index c \<noteq> - 1"
  shows "\<exists>s s'. run_std cfg calls std_init = Some s \<and>
           output_vectors_std cfg (- 1) p t mvs s = Some s' \<and>
           map b_frame_index (out (em s')) = map call_index calls \<and>
           map header (out (em s')) = rebased (- 1) (map call_stamp calls) \<and>
           (\<forall>f\<in>set (butlast (prev s')). Printed f) \<and>
           (\<forall>f e. Printed (fst (PrintIfNotPrinted occ f e)) \<and>
                  PrintIfNotPrinted occ (fst (PrintIfNotPrinted occ f e)) e =
                    (fst (PrintIfNotPrinted occ f e), e))"
proof -
  from run_std_total[OF assms(1,2)] obtain s where s: "run_std cfg calls std_init = Some s"
    by blast
  from output_vectors_std_total[OF assms(1,2)] obtain s'
    where s': "output_vectors_std cfg (- 1) p t mvs s = Some s'" by blast
  from flush_effect(1)[OF s'] obtain new where
    n: "out (em s') = out (em s) @ new"
       "map unstamped new =
             map (\<lambda>f. unstamped (render (ARG_OUTPUT_OCCUPANCY cfg) 0 f))
               (filter (\<lambda>f. \<not> Printed f) (prev s))"
    by blast
  have "map b_frame_index (out (em s')) =
          map b_frame_index (out (em s)) @ map FrameIndex (filter (\<lambda>f. \<not> Printed f) (prev s))"
    using n(1) b_frame_index_new[OF n(2)] by simp
  also have "\<dots> = map call_index calls"
    using run_std_invariant[OF s assms(3)] by simp
  finally have ix: "map b_frame_index (out (em s')) = map call_index calls" .
  from s' obtain cur where
    "s' = buffer_step (ARG_OUTPUT_OCCUPANCY cfg) (- 1) mvs cur s"
    by (rule output_vectors_std_Some)
  then have "map header (out (em s')) =
      map header (out (em s)) @
        rebased (FirstPts (em s)) (map stamp (filter (\<lambda>f. \<not> Printed f) (prev s)))"
    using print_all_headers[of "ARG_OUTPUT_OCCUPANCY cfg" "prev s" "em s"]
    by (simp add: buffer_step_flush)
  also have "\<dots> = rebased (- 1) (map call_stamp calls)"
    using run_std_headers[OF s assms(3)] by simp
  finally have "map header (out (em s')) = rebased (- 1) (map call_stamp calls)" .
  with ix s s' flush_effect(2)[OF s'] show ?thesis
    by (simp add: PrintIfNotPrinted_printed PrintIfNotPrinted_noop)
qed

theorem every_frame_emitted_once_witness:
  "map_option (\<lambda>s'. map header (out (em s')))
     (case run_std cfg16 [(1, 10, CHR ''I'', [vec 13 18 16 16]), (2, 11, CHR ''P'', []),
                           (3, 12, CHR ''P'', [vec 12 21 16 16]), (4, 13, CHR ''B'', [])]
             std_init of
        None \<Rightarrow> None
      | Some s \<Rightarrow> output_vectors_std cfg16 (- 1) 13 (CHR ''B'') [] s)
   = Some [(1, 0), (2, 1), (3, 2), (4, 3)]"
proof -
  let ?calls = "[(1, 10, CHR ''I'', [vec 13 18 16 16]), (2, 11, CHR ''P'', []),
                 (3, 12, CHR ''P'', [vec 12 21 16 16]), (4, 13, CHR ''B'', [])] :: call list"
  have sh: "0 < fst (shape_of cfg16)" "0 < snd (shape_of cfg16)" by code_simp+
  have i: "\<forall>c\<in>set ?calls. call_index c \<noteq> - 1" by (simp add: call_index_def)
  from every_frame_emitted_once[OF sh i, of 13 "CHR ''B''" "[]"]
  obtain s s' where s: "run_std cfg16 ?calls std_init = Some s"
    and s': "output_vectors_std cfg16 (- 1) 13 (CHR ''B'') [] s = Some s'"
    and m: "map header (out (em s')) = rebased (- 1) (map call_stamp ?calls)"
    by blast
  have "rebased (- 1) (map call_stamp ?calls) = [(1, 0), (2, 1), (3, 2), (4, 3)]"
    by (simp add: call_stamp_def)
  with s s' m show ?thesis by simp
qed

section \<open>The grids behind the blocks\<close>

lemma render_all_append:
  "render_all occ fp (xs @ ys) =
     render_all occ fp xs @ render_all occ (baseline_after fp (map stamp xs)) ys"
  by (induction xs arbitrary: fp) (simp_all add: stamp_def)

lemma PrintIfNotPrinted_render_all:
  "out (snd (PrintIfNotPrinted occ f e)) =
     out e @ render_all occ (FirstPts e) (filter (\<lambda>f. \<not> Printed f) [f])"
  by (simp add: PrintIfNotPrinted_out)

lemma print_all_render_all:
  "out (snd (print_all occ fs e)) =
     out e @ render_all occ (FirstPts e) (filter (\<lambda>f. \<not> Printed f) fs)"
proof (induction fs arbitrary: e)
  case Nil
  then show ?case by simp
next
  case (Cons g gs)
  let ?e' = "snd (PrintIfNotPrinted occ g e)"
  have s: "snd (print_all occ (g # gs) e) = snd (print_all occ gs ?e')"
    by (simp only: print_all_Cons snd_conv)
  show ?case
  proof (cases "Printed g")
    case True
    then have "?e' = e" by (simp add: PrintIfNotPrinted_noop)
    with Cons.IH[of e] s True show ?thesis by simp
  next
    case False
    have f: "FirstPts ?e' = (if FirstPts e = - 1 then Pts g else FirstPts e)"
      using False by (simp add: PrintIfNotPrinted_def Let_def)
    have o: "out ?e' = out e @ [render occ (if FirstPts e = - 1 then Pts g else FirstPts e) g]"
      using False by (simp add: PrintIfNotPrinted_out)
    from Cons.IH[of ?e'] s False show ?thesis by (simp add: f o)
  qed
qed

text \<open>
  One call: standard output grows by the blocks of exactly the grids of
  \<open>emitted_in_call\<close>, and the baseline moves as these emissions move it.
\<close>

lemma print_all_baseline:
  "FirstPts (snd (print_all occ fs e)) =
     baseline_after (FirstPts e) (map stamp (filter (\<lambda>f. \<not> Printed f) fs))"
  using print_all_headers[of occ fs e] by (rule conjunct2)

lemma PrintIfNotPrinted_baseline:
  "FirstPts (snd (PrintIfNotPrinted occ f e)) =
     baseline_after (FirstPts e) (map stamp (filter (\<lambda>f. \<not> Printed f) [f]))"
  using PrintIfNotPrinted_headers(2)[of occ f e] by (cases "Printed f") simp_all

lemma buffer_step_emitted:
  "out (em (buffer_step occ fi mvs cur s)) =
     out (em s) @ render_all occ (FirstPts (em s)) (emitted_in_call fi mvs cur s) \<and>
   FirstPts (em (buffer_step occ fi mvs cur s)) =
     baseline_after (FirstPts (em s)) (map stamp (emitted_in_call fi mvs cur s))"
proof (cases "fi = - 1")
  case True
  then show ?thesis
    by (simp add: buffer_step_flush emitted_in_call_def print_all_render_all print_all_baseline)
next
  case fi: False
  show ?thesis
  proof (cases "mvs = []")
    case True
    with fi show ?thesis by (simp add: buffer_step_no_vectors emitted_in_call_def)
  next
    case mv: False
    define A where "A \<longleftrightarrow> length (prev s) = 2 \<and> Empty (hd (prev s)) = False"
    define m where "m = InterpolateFlow (last (prev s)) (hd (prev s)) cur"
    define gs where "gs =
      (if A then filter (\<lambda>f. \<not> Printed f) [m] else filter (\<lambda>f. \<not> Printed f) (prev s))"
    define e1 where "e1 =
      (if A then snd (PrintIfNotPrinted occ m (em s)) else snd (print_all occ (prev s) (em s)))"
    have em: "em (buffer_step occ fi mvs cur s) = snd (PrintIfNotPrinted occ cur e1)"
      using fi mv unfolding buffer_step_def e1_def A_def m_def
      by (simp add: Let_def case_prod_beta)
    have ec: "emitted_in_call fi mvs cur s = gs @ filter (\<lambda>f. \<not> Printed f) [cur]"
      using fi mv unfolding emitted_in_call_def gs_def A_def m_def by simp
    have e1: "out e1 = out (em s) @ render_all occ (FirstPts (em s)) gs \<and>
              FirstPts e1 = baseline_after (FirstPts (em s)) (map stamp gs)"
    proof (cases A)
      case True
      then show ?thesis
        by (simp only: e1_def gs_def if_True PrintIfNotPrinted_render_all
            PrintIfNotPrinted_baseline simp_thms)
    next
      case False
      then show ?thesis
        by (simp only: e1_def gs_def if_False print_all_render_all print_all_baseline simp_thms)
    qed
    have "out (snd (PrintIfNotPrinted occ cur e1)) =
            out e1 @ render_all occ (FirstPts e1) (filter (\<lambda>f. \<not> Printed f) [cur])"
      by (rule PrintIfNotPrinted_render_all)
    moreover have "FirstPts (snd (PrintIfNotPrinted occ cur e1)) =
            baseline_after (FirstPts e1) (map stamp (filter (\<lambda>f. \<not> Printed f) [cur]))"
      by (rule PrintIfNotPrinted_baseline)
    ultimately show ?thesis
      using e1 by (simp only: em ec render_all_append baseline_after_append map_append append_assoc)
  qed
qed

lemma run_std_emitted:
  assumes "run_std cfg calls s0 = Some s"
  shows "out (em s) =
           out (em s0) @
           render_all (ARG_OUTPUT_OCCUPANCY cfg) (FirstPts (em s0)) (emitted_in_run cfg calls s0) \<and>
         FirstPts (em s) =
           baseline_after (FirstPts (em s0)) (map stamp (emitted_in_run cfg calls s0))"
  using assms
proof (induction calls arbitrary: s0)
  case Nil
  then show ?case by simp
next
  case (Cons c cs)
  obtain fi p t mvs where c: "c = (fi, p, t, mvs)" by (cases c)
  with Cons.prems obtain s1 where s1: "output_vectors_std cfg fi p t mvs s0 = Some s1"
    and r: "run_std cfg cs s1 = Some s" by (auto split: option.splits)
  from s1 obtain cur where cur: "make_cur cfg fi p t mvs = Some cur"
    and e: "s1 = buffer_step (ARG_OUTPUT_OCCUPANCY cfg) fi mvs cur s0"
    by (rule output_vectors_std_Some)
  have er: "emitted_in_run cfg (c # cs) s0 =
      emitted_in_call fi mvs cur s0 @ emitted_in_run cfg cs s1"
    by (simp add: c cur e)
  from Cons.IH[OF r] buffer_step_emitted[of "ARG_OUTPUT_OCCUPANCY cfg" fi mvs cur s0]
  show ?case
    by (simp only: er e[symmetric] render_all_append baseline_after_append map_append append_assoc)
qed

lemma emitted_in_call_cells_zero:
  assumes "\<forall>f\<in>set (prev s). cells_zero f" "cells_zero cur"
    and "g \<in> set (emitted_in_call fi mvs cur s)" "Origin g = ''video''"
  shows "cells_zero g"
proof -
  have "g \<in> set (prev s) \<or> g = cur \<or>
        g = InterpolateFlow (last (prev s)) (hd (prev s)) cur"
    using assms(3) by (auto simp: emitted_in_call_def split: if_splits)
  moreover have "Origin (InterpolateFlow (last (prev s)) (hd (prev s)) cur) \<noteq> ''video''"
    by (simp add: InterpolateFlow_fields)
  ultimately show ?thesis using assms(1,2,4) by auto
qed

lemma run_std_emitted_cells_zero:
  assumes "run_std cfg calls s0 = Some s" "\<forall>f\<in>set (prev s0). cells_zero f"
    and "g \<in> set (emitted_in_run cfg calls s0)" "Origin g = ''video''"
  shows "cells_zero g"
  using assms
proof (induction calls arbitrary: s0)
  case Nil
  then show ?case by simp
next
  case (Cons c cs)
  obtain fi p t mvs where c: "c = (fi, p, t, mvs)" by (cases c)
  with Cons.prems(1) obtain s1 where s1: "output_vectors_std cfg fi p t mvs s0 = Some s1"
    and r: "run_std cfg cs s1 = Some s" by (auto split: option.splits)
  from s1 obtain cur where cur: "make_cur cfg fi p t mvs = Some cur"
    and e: "s1 = buffer_step (ARG_OUTPUT_OCCUPANCY cfg) fi mvs cur s0"
    by (rule output_vectors_std_Some)
  have cz: "cells_zero cur" using cur by (rule make_cur_cells_zero)
  have p1: "\<forall>f\<in>set (prev s1). cells_zero f"
  proof
    fix h assume "h \<in> set (prev s1)"
    from buffer_step_prev[OF this[unfolded e]] obtain f
      where "f \<in> insert cur (set (prev s0))" "h = f \<or> h = f\<lparr>Printed := True\<rparr>" by blast
    with Cons.prems(2) cz show "cells_zero h" by auto
  qed
  from Cons.prems(3) have "g \<in> set (emitted_in_call fi mvs cur s0) \<or>
      g \<in> set (emitted_in_run cfg cs s1)"
    by (simp add: c cur e)
  then show ?case
  proof
    assume "g \<in> set (emitted_in_call fi mvs cur s0)"
    from emitted_in_call_cells_zero[OF Cons.prems(2) cz this Cons.prems(4)] show ?thesis .
  next
    assume "g \<in> set (emitted_in_run cfg cs s1)"
    from Cons.IH[OF r p1 this Cons.prems(4)] show ?thesis .
  qed
qed

text \<open>
  Claim C8 as amended: in every grid the arranged pipeline emits with origin "video",
  every cell of occupancy 0 has displacement zero. (Interpolation writes the means into
  the buffered grid and leaves its occupancy array alone, so a grid of origin
  "interpolated" has cells of occupancy 0 that are not zero.) The calls are any calls,
  the flush call included, with or without \<^verbatim>\<open>--occupancy\<close>. Standard output is, block by
  block, what \<^verbatim>\<open>PrintIfNotPrinted\<close> writes for the grids the calls printed; each of these
  grids that has origin "video" has displacement zero in every cell of occupancy 0; and
  so a block of origin "video" shows a zero displacement wherever its occupancy block,
  if printed, shows 0.
\<close>

theorem video_grid_empty_cells_zero:
  assumes "run_std cfg calls std_init = Some s"
  shows "out (em s) =
           render_all (ARG_OUTPUT_OCCUPANCY cfg) (- 1) (emitted_in_run cfg calls std_init) \<and>
         (\<forall>g\<in>set (emitted_in_run cfg calls std_init). Origin g = ''video'' \<longrightarrow> cells_zero g) \<and>
         (\<forall>b\<in>set (out (em s)). b_origin b = ''video'' \<longrightarrow> block_cells_zero b)"
proof -
  have "out (em s) =
           render_all (ARG_OUTPUT_OCCUPANCY cfg) (- 1) (emitted_in_run cfg calls std_init)"
    using run_std_emitted[OF assms] by (simp add: std_init_def)
  moreover have "\<forall>g\<in>set (emitted_in_run cfg calls std_init). Origin g = ''video'' \<longrightarrow> cells_zero g"
    using run_std_emitted_cells_zero[OF assms] by (simp add: std_init_def)
  moreover have "\<forall>b\<in>set (out (em s)). b_origin b = ''video'' \<longrightarrow> block_cells_zero b"
  proof (intro ballI impI)
    fix b assume b: "b \<in> set (out (em s))" "b_origin b = ''video''"
    have "grids_ok (ARG_OUTPUT_OCCUPANCY cfg) std_init"
      by (simp add: grids_ok_def std_init_def)
    from run_std_grids_ok[OF assms this] b
    obtain f fp where f: "cells_zero f" "b = render (ARG_OUTPUT_OCCUPANCY cfg) fp f"
      by (auto simp: grids_ok_def)
    then show "block_cells_zero b" using render_cells_zero[OF f(1)] by blast
  qed
  ultimately show ?thesis by blast
qed

theorem video_grid_empty_cells_zero_witness:
  "run_std cfg16 [(1, 10, CHR ''I'', [vec 13 18 16 16]), (2, 11, CHR ''P'', []),
                  (3, 12, CHR ''P'', [vec 12 21 16 16])] std_init \<noteq> None \<and>
   map (\<lambda>g. (FrameIndex g, Origin g))
     (emitted_in_run cfg16 [(1, 10, CHR ''I'', [vec 13 18 16 16]), (2, 11, CHR ''P'', []),
                            (3, 12, CHR ''P'', [vec 12 21 16 16])] std_init)
     = [(1, ''video''), (2, ''interpolated''), (3, ''video'')] \<and>
   occupancy (emitted_in_run cfg16 [(1, 10, CHR ''I'', [vec 13 18 16 16]), (2, 11, CHR ''P'', []),
                            (3, 12, CHR ''P'', [vec 12 21 16 16])] std_init ! 2) (0, 3) = 0 \<and>
   dx (emitted_in_run cfg16 [(1, 10, CHR ''I'', [vec 13 18 16 16]), (2, 11, CHR ''P'', []),
                            (3, 12, CHR ''P'', [vec 12 21 16 16])] std_init ! 2) (0, 3) = 0 \<and>
   dy (emitted_in_run cfg16 [(1, 10, CHR ''I'', [vec 13 18 16 16]), (2, 11, CHR ''P'', []),
                            (3, 12, CHR ''P'', [vec 12 21 16 16])] std_init ! 2) (0, 3) = 0"
proof -
  let ?calls = "[(1, 10, CHR ''I'', [vec 13 18 16 16]), (2, 11, CHR ''P'', []),
                 (3, 12, CHR ''P'', [vec 12 21 16 16])] :: call list"
  define s where "s = the (run_std cfg16 ?calls std_init)"
  define gs where "gs = emitted_in_run cfg16 ?calls std_init"
  have n: "run_std cfg16 ?calls std_init \<noteq> None" by code_simp
  then have r: "run_std cfg16 ?calls std_init = Some s" by (auto simp: s_def)
  have m: "map (\<lambda>g. (FrameIndex g, Origin g)) gs
     = [(1, ''video''), (2, ''interpolated''), (3, ''video'')]" unfolding gs_def by code_simp
  have "length gs = 3" unfolding gs_def by code_simp
  then have mem: "gs ! 2 \<in> set gs" by simp
  have v: "Origin (gs ! 2) = ''video''" unfolding gs_def by code_simp
  have z: "occupancy (gs ! 2) (0, 3) = 0" unfolding gs_def by code_simp
  from video_grid_empty_cells_zero[OF r, folded gs_def] mem v have "cells_zero (gs ! 2)"
    by blast
  with z have "dx (gs ! 2) (0, 3) = 0 \<and> dy (gs ! 2) (0, 3) = 0"
    unfolding cells_zero_def by blast
  with n m z show ?thesis unfolding gs_def by blast
qed

end
